theory Spec2Isabelle
  imports Complex_Main "HOL-Library.Word"
begin

unbundle bit_operations_syntax

section \<open>Bytes, buffers and JavaScript's 32-bit integer operators\<close>

text \<open>
  A \<open>Buffer\<close> or \<open>Uint8Array\<close> is a list of bytes. The count handed to the encoder is a
  JavaScript number holding an integer; the operators \<open>&\<close>, \<open>|\<close> and \<open>>>\<close> first
  convert their operand to a signed 32-bit integer (ToInt32), which is written out here
  on \<open>int\<close>.
\<close>

type_synonym byte = "8 word"

definition toInt32 :: "int \<Rightarrow> int" where
  "toInt32 n = (n + 2 ^ 31) mod 2 ^ 32 - 2 ^ 31"

definition js_and :: "int \<Rightarrow> int \<Rightarrow> int" where
  "js_and a b = toInt32 a AND toInt32 b"

definition js_or :: "int \<Rightarrow> int \<Rightarrow> int" where
  "js_or a b = toInt32 a OR toInt32 b"

definition js_sar :: "int \<Rightarrow> nat \<Rightarrow> int" where
  "js_sar a k = drop_bit k (toInt32 a)"

text \<open>
  \<open>array[index] = value\<close> on a \<open>Uint8Array\<close>: the value is stored modulo 256, and a
  store outside the array is silently dropped.
\<close>

definition store :: "byte list \<Rightarrow> nat \<Rightarrow> int \<Rightarrow> byte list" where
  "store array index v = (if index < length array then array[index := word_of_int v] else array)"

section \<open>The compact length encoding\<close>

definition getSignatureCountLength :: "int \<Rightarrow> nat" where
  "getSignatureCountLength count =
     (if count < 0x80 then 1
      else if count < 0x4000 then 2
      else 3)"

text \<open>
  The body of \<open>for (;;)\<close> in \<open>encodeLength\<close>. The loop has no bound of its own, so it is a
  partial function: \<open>None\<close> is a run that never leaves the loop.
\<close>

partial_function (option) encodeLength_loop ::
  "int \<Rightarrow> nat \<Rightarrow> byte list \<Rightarrow> nat \<Rightarrow> (nat \<times> byte list) option" where
  "encodeLength_loop rem_len len array offset =
     (let elem = js_and rem_len 0x7f;
          rem_len' = js_sar rem_len 7;
          elem' = (if rem_len' \<noteq> 0 then js_or elem 0x80 else elem);
          array' = store array (offset + len) elem';
          len' = len + 1
      in if rem_len' = 0 then Some (len', array')
         else encodeLength_loop rem_len' len' array' offset)"

definition encodeLength :: "int \<Rightarrow> byte list \<Rightarrow> nat \<Rightarrow> (nat \<times> byte list) option" where
  "encodeLength count array offset = encodeLength_loop count 0 array offset"

text \<open>
  The decoder of the encoding as the specification words it: a base-128 little-endian
  variable-length integer, the low 7 bits of each byte the payload and bit \<open>0x80\<close> the
  continuation flag. It reads the whole byte sequence; a sequence that ends on a byte with
  the flag set, or goes on after a byte without it, does not decode.
\<close>

fun decodeLength :: "byte list \<Rightarrow> int option" where
  "decodeLength [] = None"
| "decodeLength (b # bs) =
     (if b AND 0x80 = 0
      then (if bs = [] then Some (uint (b AND 0x7f)) else None)
      else map_option (\<lambda>r. uint (b AND 0x7f) + 128 * r) (decodeLength bs))"

text \<open>
  Two auxiliary functions describe what the loop leaves behind: \<open>compact_bytes n\<close> is
  the sequence of base-128 digits of \<open>n\<close>, low digit first, every byte but the last
  carrying the flag; \<open>write_bytes\<close> stores a sequence byte by byte from a position on,
  as repeated \<open>store\<close> does.
\<close>

function compact_bytes :: "int \<Rightarrow> byte list" where
  "compact_bytes n =
     (if n div 128 \<le> 0 then [word_of_int (n mod 128)]
      else word_of_int (n mod 128 + 128) # compact_bytes (n div 128))"
  by pat_completeness auto
termination
  by (relation "measure nat") auto

declare compact_bytes.simps [simp del]

fun write_bytes :: "byte list \<Rightarrow> nat \<Rightarrow> byte list \<Rightarrow> byte list" where
  "write_bytes array pos [] = array"
| "write_bytes array pos (b # bs) =
     write_bytes (if pos < length array then array[pos := b] else array) (Suc pos) bs"

section \<open>Errors, transactions and the wire format\<close>

text \<open>
  An exception is a value: the class of the thrown object with its message. A
  \<open>SendTransactionError\<close> is the ledger client's error for a rejected submission.
\<close>

datatype error = SendTransactionError string | Error string | RangeError string

type_synonym pubkey = string

record instruction =
  fromPubkey :: pubkey
  toPubkey :: pubkey
  lamports :: int

definition SystemProgram_transfer :: "pubkey \<Rightarrow> pubkey \<Rightarrow> int \<Rightarrow> instruction" where
  "SystemProgram_transfer from to amount =
     \<lparr>fromPubkey = from, toPubkey = to, lamports = amount\<rparr>"

text \<open>A signature slot holds a buffer or \<open>null\<close>.\<close>

record signaturePubkeyPair =
  signature :: "byte list option"
  publicKey :: pubkey

record transaction =
  instructions :: "instruction list"
  recentBlockhash :: "string option"
  signatures :: "signaturePubkeyPair list"

record keypair =
  kp_publicKey :: pubkey
  kp_secretKey :: "byte list"

definition new_Transaction :: transaction where
  "new_Transaction = \<lparr>instructions = [], recentBlockhash = None, signatures = []\<rparr>"

definition tx_add :: "transaction \<Rightarrow> instruction \<Rightarrow> transaction" where
  "tx_add tx ins = tx\<lparr>instructions := instructions tx @ [ins]\<rparr>"

definition Buffer_alloc :: "nat \<Rightarrow> byte list" where
  "Buffer_alloc n = replicate n 0"

text \<open>
  \<open>target.set(source, offset)\<close> copies the source into the target and throws a
  \<open>RangeError\<close> when the source does not fit behind the offset.
\<close>

definition Buffer_set :: "byte list \<Rightarrow> byte list \<Rightarrow> nat \<Rightarrow> error + byte list" where
  "Buffer_set target source offset =
     (if length target < offset + length source then Inl (RangeError ''offset is out of bounds'')
      else Inr (take offset target @ source @ drop (offset + length source) target))"

text \<open>
  The loop over \<open>tx.signatures\<close>: it returns the buffer and the offset behind the last
  signature, or the first exception.
\<close>

fun write_signatures ::
  "signaturePubkeyPair list \<Rightarrow> byte list \<Rightarrow> nat \<Rightarrow> error + (byte list \<times> nat)" where
  "write_signatures [] wireTransaction offset = Inr (wireTransaction, offset)"
| "write_signatures (p # ps) wireTransaction offset =
     (case signature p of
        None \<Rightarrow> Inl (Error ''Transaction must be fully signed before serialization'')
      | Some s \<Rightarrow>
          (case Buffer_set wireTransaction s offset of
             Inl e \<Rightarrow> Inl e
           | Inr wireTransaction' \<Rightarrow> write_signatures ps wireTransaction' (offset + 64)))"

text \<open>
  \<open>customSerializeTransaction\<close>. The message body \<open>serializedMessage\<close> is what the
  ledger client's \<open>tx.compileMessage().serialize()\<close> returned; the size check of the
  source is commented out there and absent here. The outer \<open>option\<close> is the
  termination of \<open>encodeLength\<close>.
\<close>

definition customSerializeTransaction ::
  "byte list \<Rightarrow> transaction \<Rightarrow> (error + byte list) option" where
  "customSerializeTransaction serializedMessage tx =
     (let signatureCount = length (signatures tx);
          signatureCountLength = getSignatureCountLength (int signatureCount);
          serializedSignaturesLength = signatureCountLength + signatureCount * 64;
          transactionSize = serializedSignaturesLength + length serializedMessage;
          wireTransaction = Buffer_alloc transactionSize
      in case encodeLength (int (length (signatures tx))) wireTransaction 0 of
           None \<Rightarrow> None
         | Some (len, wireTransaction') \<Rightarrow>
             Some (case write_signatures (signatures tx) wireTransaction' (0 + len) of
                     Inl e \<Rightarrow> Inl e
                   | Inr (wireTransaction'', offset) \<Rightarrow>
                       Buffer_set wireTransaction'' serializedMessage offset))"

text \<open>
  The encoding as a byte sequence (the specification's \<open>encodeCompactLength\<close>): what
  \<open>encodeLength\<close> writes at the start of a fresh buffer. Five bytes hold the encoding of
  every count the 32-bit operators read as non-negative.
\<close>

definition encodeCompactLength :: "int \<Rightarrow> byte list option" where
  "encodeCompactLength count =
     (case encodeLength count (Buffer_alloc 5) 0 of
        None \<Rightarrow> None
      | Some (len, array) \<Rightarrow> Some (take len array))"

section \<open>Building the batches\<close>

text \<open>
  \<open>Math.ceil(allInstructions.length / batchSize)\<close> is a number: the ceiling of the
  quotient for a divisor other than zero (the quotient of two integers below \<open>2^53\<close> is
  rounded to a double with the same ceiling), \<open>NaN\<close> for \<open>0 / 0\<close> and \<open>Infinity\<close> for a
  positive length over zero.
\<close>

datatype number = Finite int | NaN | PosInfinity

definition Math_ceil_div :: "nat \<Rightarrow> int \<Rightarrow> number" where
  "Math_ceil_div len batchSize =
     (if batchSize = 0 then (if len = 0 then NaN else PosInfinity)
      else Finite (- ((- int len) div batchSize)))"

fun js_less :: "int \<Rightarrow> number \<Rightarrow> bool" where
  "js_less i (Finite n) = (i < n)"
| "js_less i NaN = False"
| "js_less i PosInfinity = True"

text \<open>The first loop: \<open>batchSize\<close> transfers of 10,000 lamports are pushed.\<close>

function push_transfers ::
  "int \<Rightarrow> int \<Rightarrow> pubkey \<Rightarrow> pubkey \<Rightarrow> instruction list \<Rightarrow> instruction list" where
  "push_transfers i batchSize from to allInstructions =
     (if i < batchSize
      then push_transfers (i + 1) batchSize from to
             (allInstructions @ [SystemProgram_transfer from to 10000])
      else allInstructions)"
  by pat_completeness auto
termination
  by (relation "measure (\<lambda>(i, batchSize, _). nat (batchSize - i))") auto

declare push_transfers.simps [simp del]

text \<open>
  The inner loop over \<open>j\<close>: \<open>allInstructions[j]\<close> outside the array is \<open>undefined\<close>
  and is skipped; an instruction is an object and so never falsy.
\<close>

function add_instructions ::
  "instruction list \<Rightarrow> int \<Rightarrow> int \<Rightarrow> transaction \<Rightarrow> transaction" where
  "add_instructions allInstructions j upperIndex tx =
     (if j < upperIndex
      then add_instructions allInstructions (j + 1) upperIndex
             (if 0 \<le> j \<and> nat j < length allInstructions
              then tx_add tx (allInstructions ! nat j) else tx)
      else tx)"
  by pat_completeness auto
termination
  by (relation "measure (\<lambda>(_, j, upperIndex, _). nat (upperIndex - j))") auto

declare add_instructions.simps [simp del]

text \<open>
  The outer loop of \<open>generateTransactions\<close> over \<open>i < numTransactions\<close>. Its bound may be
  \<open>Infinity\<close>, so it is a partial function.
\<close>

partial_function (option) batch_loop ::
  "instruction list \<Rightarrow> int \<Rightarrow> number \<Rightarrow> int \<Rightarrow> transaction list \<Rightarrow> transaction list option"
  where
  "batch_loop allInstructions batchSize numTransactions i paymentBatches =
     (if js_less i numTransactions
      then (let tx = new_Transaction;
                lowerIndex = i * batchSize;
                upperIndex = (i + 1) * batchSize;
                tx' = add_instructions allInstructions lowerIndex upperIndex tx
            in batch_loop allInstructions batchSize numTransactions (i + 1)
                 (paymentBatches @ [tx']))
      else Some paymentBatches)"

definition generateTransactions :: "int \<Rightarrow> pubkey \<Rightarrow> pubkey \<Rightarrow> transaction list option" where
  "generateTransactions batchSize fundingWallet destinationWallet =
     (let allInstructions = push_transfers 0 batchSize fundingWallet destinationWallet [];
          numTransactions = Math_ceil_div (length allInstructions) batchSize
      in batch_loop allInstructions batchSize numTransactions 0 [])"

section \<open>The ledger client\<close>

text \<open>
  The remote endpoint is outside the program. A \<open>connection\<close> fixes how it answers: the
  blockhash request, the \<open>k\<close>-th submission made on the connection, and the confirmation
  of a signature (\<open>None\<close> is a confirmation, \<open>Some err\<close> an exception). Every request
  made is appended to a log, which is the state the calls pass on.
\<close>

datatype request =
  GetLatestBlockhash | SendRawTransaction "byte list" | ConfirmTransaction string

record connection =
  answer_blockhash :: "error + string"
  answer_send :: "nat \<Rightarrow> byte list \<Rightarrow> error + string"
  answer_confirm :: "string \<Rightarrow> error option"

fun is_submission :: "request \<Rightarrow> bool" where
  "is_submission (SendRawTransaction _) = True"
| "is_submission _ = False"

definition submissions :: "request list \<Rightarrow> nat" where
  "submissions net = length (filter is_submission net)"

definition getLatestBlockhash ::
  "connection \<Rightarrow> request list \<Rightarrow> (error + string) \<times> request list" where
  "getLatestBlockhash conn net = (answer_blockhash conn, net @ [GetLatestBlockhash])"

definition sendRawTransaction ::
  "connection \<Rightarrow> byte list \<Rightarrow> request list \<Rightarrow> (error + string) \<times> request list" where
  "sendRawTransaction conn rawTransaction net =
     (answer_send conn (submissions net) rawTransaction, net @ [SendRawTransaction rawTransaction])"

definition confirmTransaction ::
  "connection \<Rightarrow> string \<Rightarrow> request list \<Rightarrow> error option \<times> request list" where
  "confirmTransaction conn sig net = (answer_confirm conn sig, net @ [ConfirmTransaction sig])"

section \<open>Generating the raw transactions\<close>

text \<open>
  \<open>tx.sign(fundingWallet)\<close> and \<open>tx.compileMessage().serialize()\<close> belong to the ledger
  client's library and are parameters: \<open>sign\<close> throws or returns the transaction with its
  signatures, \<open>compile\<close> returns the message body.
\<close>

partial_function (option) raw_batch_loop ::
  "(keypair \<Rightarrow> transaction \<Rightarrow> error + transaction) \<Rightarrow> (transaction \<Rightarrow> byte list) \<Rightarrow>
   instruction list \<Rightarrow> int \<Rightarrow> number \<Rightarrow> keypair \<Rightarrow> string \<Rightarrow> int \<Rightarrow> byte list list \<Rightarrow>
   (error + byte list list) option" where
  "raw_batch_loop sign compile allInstructions batchSize numTransactions fundingWallet
       blockhash i rawPaymentBatches =
     (if js_less i numTransactions
      then (let tx = new_Transaction;
                lowerIndex = i * batchSize;
                upperIndex = (i + 1) * batchSize;
                tx' = add_instructions allInstructions lowerIndex upperIndex tx;
                tx'' = tx'\<lparr>recentBlockhash := Some blockhash\<rparr>
            in case sign fundingWallet tx'' of
                 Inl e \<Rightarrow> Some (Inl e)
               | Inr signedTx \<Rightarrow>
                   (case customSerializeTransaction (compile signedTx) signedTx of
                      None \<Rightarrow> None
                    | Some (Inl e) \<Rightarrow> Some (Inl e)
                    | Some (Inr rawTxBuffer) \<Rightarrow>
                        raw_batch_loop sign compile allInstructions batchSize numTransactions
                          fundingWallet blockhash (i + 1) (rawPaymentBatches @ [rawTxBuffer])))
      else Some (Inr rawPaymentBatches))"

definition generateRawTransactions ::
  "(keypair \<Rightarrow> transaction \<Rightarrow> error + transaction) \<Rightarrow> (transaction \<Rightarrow> byte list) \<Rightarrow>
   int \<Rightarrow> keypair \<Rightarrow> pubkey \<Rightarrow> connection \<Rightarrow> request list \<Rightarrow>
   ((error + byte list list) \<times> request list) option" where
  "generateRawTransactions sign compile batchSize fundingWallet destinationWallet conn net =
     (let fromPubkey = kp_publicKey fundingWallet;
          allInstructions = push_transfers 0 batchSize fromPubkey destinationWallet []
      in case getLatestBlockhash conn net of
           (Inl e, net') \<Rightarrow> Some (Inl e, net')
         | (Inr blockhash, net') \<Rightarrow>
             (let numTransactions = Math_ceil_div (length allInstructions) batchSize
              in map_option (\<lambda>r. (r, net'))
                   (raw_batch_loop sign compile allInstructions batchSize numTransactions
                      fundingWallet blockhash 0 [])))"

section \<open>Sending with retry\<close>

fun instanceof_SendTransactionError :: "error \<Rightarrow> bool" where
  "instanceof_SendTransactionError (SendTransactionError _) = True"
| "instanceof_SendTransactionError _ = False"

text \<open>The number in a template literal, in decimal.\<close>

function string_of_nat :: "nat \<Rightarrow> string" where
  "string_of_nat n =
     (if n < 10 then [''0123456789'' ! n]
      else string_of_nat (n div 10) @ [''0123456789'' ! (n mod 10)])"
  by pat_completeness auto
termination
  by (relation "measure id") auto

declare string_of_nat.simps [simp del]

text \<open>
  The \<open>try\<close> block: submit, wait for the confirmation, return the signature. \<open>Inl\<close> is
  the exception thrown inside it.
\<close>

definition try_send ::
  "connection \<Rightarrow> byte list \<Rightarrow> request list \<Rightarrow> (error + string) \<times> request list" where
  "try_send conn rawTransaction net =
     (case sendRawTransaction conn rawTransaction net of
        (Inl err, net') \<Rightarrow> (Inl err, net')
      | (Inr sig, net') \<Rightarrow>
          (case confirmTransaction conn sig net' of
             (Some err, net'') \<Rightarrow> (Inl err, net'')
           | (None, net'') \<Rightarrow> (Inr sig, net'')))"

text \<open>
  The \<open>catch\<close> block: an \<open>if\<close> whose two branches throw the caught error, followed by
  \<open>i++\<close>. \<open>Inl\<close> is the exception leaving the block, \<open>Inr\<close> the counter after a normal
  end.
\<close>

definition catch_send :: "error \<Rightarrow> nat \<Rightarrow> error + nat" where
  "catch_send err i =
     (case (if instanceof_SendTransactionError err then Inl err else Inl err) :: error + unit of
        Inl thrown \<Rightarrow> Inl thrown
      | Inr _ \<Rightarrow> Inr (i + 1))"

function retry_loop ::
  "connection \<Rightarrow> byte list \<Rightarrow> nat \<Rightarrow> nat \<Rightarrow> request list \<Rightarrow> (error + string) \<times> request list"
  where
  "retry_loop conn rawTransaction retries i net =
     (if i < retries
      then (case try_send conn rawTransaction net of
              (Inr sig, net') \<Rightarrow> (Inr sig, net')
            | (Inl err, net') \<Rightarrow>
                (case catch_send err i of
                   Inl thrown \<Rightarrow> (Inl thrown, net')
                 | Inr i' \<Rightarrow> retry_loop conn rawTransaction retries i' net'))
      else (Inl (Error (''Failed to send transaction after '' @ string_of_nat retries
                         @ '' attempts'')), net))"
  by pat_completeness auto
termination
  by (relation "measure (\<lambda>(_, _, retries, i, _). retries - i)")
     (auto simp: catch_send_def split: if_splits)

declare retry_loop.simps [simp del]

definition sendRawTransactionWithRetry ::
  "connection \<Rightarrow> byte list \<Rightarrow> nat \<Rightarrow> request list \<Rightarrow> (error + string) \<times> request list" where
  "sendRawTransactionWithRetry conn rawTransaction retries net =
     retry_loop conn rawTransaction retries 0 net"

section \<open>The staggered dispatch\<close>

text \<open>
  A promise is pending, fulfilled or rejected. Each message gets a promise built by
  \<open>new Promise((resolve) => setTimeout(() => send(...).then(resolve), i * TX_INTERVAL))\<close>:
  the executor takes \<open>resolve\<close> alone, so the promise is fulfilled with the signature when
  the send returns one, and when the send throws, the rejection goes to the promise that
  \<open>.then(resolve)\<close> returns, which nothing holds, and the message's promise stays pending.
  The timers fire in the order of their delays \<open>i * TX_INTERVAL\<close>, and a send makes its
  submission as soon as it is called, so the submissions reach the connection in the order
  of the list.
\<close>

datatype 'a promise = Pending | Fulfilled 'a | Rejected error

datatype 'a promiseSettledResult = PromiseFulfilledResult 'a | PromiseRejectedResult error

definition then_resolve :: "error + string \<Rightarrow> string promise" where
  "then_resolve sent = (case sent of Inr sig \<Rightarrow> Fulfilled sig | Inl err \<Rightarrow> Pending)"

fun staggeredTransactions ::
  "connection \<Rightarrow> byte list list \<Rightarrow> request list \<Rightarrow> string promise list \<times> request list" where
  "staggeredTransactions conn [] net = ([], net)"
| "staggeredTransactions conn (rawTransaction # rest) net =
     (case sendRawTransactionWithRetry conn rawTransaction 5 net of
        (sent, net') \<Rightarrow>
          (case staggeredTransactions conn rest net' of
             (promises, net'') \<Rightarrow> (then_resolve sent # promises, net'')))"

text \<open>
  \<open>Promise.allSettled\<close> resolves once every promise has settled, with one result for
  each in their order; with a promise that stays pending it never resolves (\<open>None\<close>).
\<close>

fun settled :: "'a promise \<Rightarrow> 'a promiseSettledResult option" where
  "settled Pending = None"
| "settled (Fulfilled v) = Some (PromiseFulfilledResult v)"
| "settled (Rejected e) = Some (PromiseRejectedResult e)"

fun Promise_allSettled :: "'a promise list \<Rightarrow> 'a promiseSettledResult list option" where
  "Promise_allSettled [] = Some []"
| "Promise_allSettled (p # ps) =
     (case settled p of
        None \<Rightarrow> None
      | Some r \<Rightarrow> map_option ((#) r) (Promise_allSettled ps))"

definition executeRawTransactions ::
  "connection \<Rightarrow> byte list list \<Rightarrow> request list \<Rightarrow>
   string promiseSettledResult list option \<times> request list" where
  "executeRawTransactions conn rawTransactionList net =
     (case staggeredTransactions conn rawTransactionList net of
        (promises, net') \<Rightarrow> (Promise_allSettled promises, net'))"

section \<open>Scenarios\<close>

text \<open>
  Endpoints for the scenarios of the specification. \<open>rejecting\<close> rejects every
  submission, the \<open>k\<close>-th with an error that carries \<open>k\<close>; \<open>third_time\<close> rejects the first
  two submissions and accepts the third; \<open>three_rejected\<close> rejects the submissions
  numbered 1, 4 and 7 and accepts the others. \<open>ten_messages\<close> are ten raw transactions.
\<close>

definition rejecting :: connection where
  "rejecting =
     \<lparr>answer_blockhash = Inr ''hash'',
      answer_send = (\<lambda>k rawTransaction. Inl (SendTransactionError (''rejected '' @ string_of_nat k))),
      answer_confirm = (\<lambda>sig. None)\<rparr>"

definition third_time :: connection where
  "third_time =
     \<lparr>answer_blockhash = Inr ''hash'',
      answer_send = (\<lambda>k rawTransaction.
        if k = 2 then Inr ''signature 2''
        else Inl (SendTransactionError (''rejected '' @ string_of_nat k))),
      answer_confirm = (\<lambda>sig. None)\<rparr>"

definition three_rejected :: connection where
  "three_rejected =
     \<lparr>answer_blockhash = Inr ''hash'',
      answer_send = (\<lambda>k rawTransaction.
        if k \<in> {1, 4, 7} then Inl (SendTransactionError (''rejected '' @ string_of_nat k))
        else Inr (''signature '' @ string_of_nat k)),
      answer_confirm = (\<lambda>sig. None)\<rparr>"

definition ten_messages :: "byte list list" where
  "ten_messages = [[0], [1], [2], [3], [4], [5], [6], [7], [8], [9]]"

text \<open>
  The transaction of one batch, as the inner loop of \<open>generateTransactions\<close> fills it
  for a positive batch size.
\<close>

definition chunk :: "instruction list \<Rightarrow> int \<Rightarrow> nat \<Rightarrow> transaction" where
  "chunk allInstructions batchSize k =
     new_Transaction\<lparr>instructions :=
       take (nat batchSize) (drop (k * nat batchSize) allInstructions)\<rparr>"

section \<open>The encoder: what the loop writes\<close>

lemma toInt32_id: "0 \<le> n \<Longrightarrow> n < 2 ^ 31 \<Longrightarrow> toInt32 n = n"
  by (simp add: toInt32_def)

lemma int_and_7f: "(n::int) AND 127 = n mod 128"
proof -
  have "(127::int) = mask 7" by (simp add: mask_eq_exp_minus_1)
  then have "n AND 127 = take_bit 7 n" by (simp add: take_bit_eq_mask)
  then show ?thesis by (simp add: take_bit_eq_mod)
qed

lemma int_and_80: "0 \<le> n \<Longrightarrow> n < 256 \<Longrightarrow> ((n::int) AND 128 = 0) = (n < 128)"
proof -
  assume a: "0 \<le> n" "n < 256"
  have "(n AND 2 ^ 7 = 0) = (\<not> bit n 7)" by (rule and_exp_eq_0_iff_not_bit)
  also have "\<dots> = even (n div 128)" by (simp add: bit_iff_odd)
  also have "\<dots> = (n < 128)" using a by presburger
  finally show ?thesis by simp
qed

lemma int_or_80: "0 \<le> e \<Longrightarrow> e < 128 \<Longrightarrow> (e::int) OR 128 = e + 128"
proof -
  assume a: "0 \<le> e" "e < 128"
  then have "e AND 128 = 0" using int_and_80 [of e] by simp
  then show ?thesis by (simp add: disjunctive_add_eq_or)
qed

lemma js_and_7f: "0 \<le> n \<Longrightarrow> n < 2 ^ 31 \<Longrightarrow> js_and n 0x7f = n mod 128"
  by (simp add: js_and_def toInt32_id int_and_7f)

lemma js_sar_7: "0 \<le> n \<Longrightarrow> n < 2 ^ 31 \<Longrightarrow> js_sar n 7 = n div 128"
  by (simp add: js_sar_def toInt32_id drop_bit_eq_div)

lemma js_or_80: "0 \<le> e \<Longrightarrow> e < 128 \<Longrightarrow> js_or e 0x80 = e + 128"
  by (simp add: js_or_def toInt32_id int_or_80)

lemma byte_low7: "uint ((b::byte) AND 0x7f) = uint b mod 128"
proof -
  have "uint (b AND 0x7f) = uint b AND uint (0x7f :: byte)" by (rule unsigned_and_eq)
  then show ?thesis by (simp add: int_and_7f)
qed

lemma byte_flag: "((b::byte) AND 0x80 = 0) = (uint b < 128)"
proof -
  have "(b AND 0x80 = 0) = (uint (b AND 0x80) = 0)" by (simp add: uint_0_iff)
  also have "uint (b AND 0x80) = uint b AND uint (0x80 :: byte)" by (rule unsigned_and_eq)
  also have "(uint b AND uint (0x80 :: byte) = 0) = (uint b < 128)"
    using int_and_80 [of "uint b"] uint_lt2p [of b] by simp
  finally show ?thesis .
qed

lemma length_write_bytes: "length (write_bytes array pos bs) = length array"
  by (induction bs arbitrary: array pos) auto

lemma write_bytes_fits:
  "pos + length bs \<le> length array \<Longrightarrow>
   write_bytes array pos bs = take pos array @ bs @ drop (pos + length bs) array"
proof (induction bs arbitrary: array pos)
  case Nil
  then show ?case by simp
next
  case (Cons b bs)
  then have p: "pos < length array" by simp
  have "write_bytes array pos (b # bs) = write_bytes (array[pos := b]) (Suc pos) bs"
    using p by simp
  also have "\<dots> = take (Suc pos) (array[pos := b]) @ bs @ drop (Suc pos + length bs) (array[pos := b])"
    using Cons.prems by (intro Cons.IH) simp
  also have "take (Suc pos) (array[pos := b]) = take pos array @ [b]"
    using p by (simp add: take_Suc_conv_app_nth)
  also have "drop (Suc pos + length bs) (array[pos := b]) = drop (pos + length (b # bs)) array"
    by simp
  finally show ?case by simp
qed

lemma write_bytes_store:
  "write_bytes array pos (word_of_int v # bs) = write_bytes (store array pos v) (Suc pos) bs"
  by (simp add: store_def)

lemma encodeLength_loop_bytes:
  "0 \<le> n \<Longrightarrow> n < 2 ^ 31 \<Longrightarrow>
   encodeLength_loop n len array offset =
     Some (len + length (compact_bytes n), write_bytes array (offset + len) (compact_bytes n))"
proof (induction n arbitrary: len array rule: compact_bytes.induct)
  case (1 n)
  have sar: "js_sar n 7 = n div 128" using "1.prems" by (simp add: js_sar_7)
  have an: "js_and n 0x7f = n mod 128" using "1.prems" by (simp add: js_and_7f)
  show ?case
  proof (cases "n div 128 \<le> 0")
    case True
    then have z: "n div 128 = 0" using "1.prems" by (simp add: div_int_pos_iff order_antisym)
    show ?thesis
      by (subst encodeLength_loop.simps, subst compact_bytes.simps, subst compact_bytes.simps)
         (simp add: sar an z store_def Let_def)
  next
    case False
    then have nz: "n div 128 \<noteq> 0" by simp
    have b: "0 \<le> n div 128" "n div 128 < 2 ^ 31" using "1.prems" False by auto
    have orr: "js_or (n mod 128) 0x80 = n mod 128 + 128" by (simp add: js_or_80)
    have ih: "encodeLength_loop (n div 128) (Suc len) (store array (offset + len) (n mod 128 + 128)) offset =
      Some (Suc len + length (compact_bytes (n div 128)),
        write_bytes (store array (offset + len) (n mod 128 + 128)) (offset + Suc len) (compact_bytes (n div 128)))"
      using False b by (intro "1.IH") auto
    have cb: "compact_bytes n = word_of_int (n mod 128 + 128) # compact_bytes (n div 128)"
      using False by (subst compact_bytes.simps) simp
    have "encodeLength_loop n len array offset =
        encodeLength_loop (n div 128) (Suc len) (store array (offset + len) (n mod 128 + 128)) offset"
      by (subst encodeLength_loop.simps) (simp add: sar an nz orr Let_def)
    also note ih
    also have "write_bytes (store array (offset + len) (n mod 128 + 128)) (offset + Suc len)
          (compact_bytes (n div 128)) = write_bytes array (offset + len) (compact_bytes n)"
      by (simp add: cb store_def)
    also have "Suc len + length (compact_bytes (n div 128)) = len + length (compact_bytes n)"
      by (simp add: cb)
    finally show ?thesis .
  qed
qed

lemma decodeLength_compact_bytes: "0 \<le> n \<Longrightarrow> decodeLength (compact_bytes n) = Some n"
proof (induction n rule: compact_bytes.induct)
  case (1 n)
  show ?case
  proof (cases "n div 128 \<le> 0")
    case True
    then have z: "n div 128 = 0" using "1.prems" by (simp add: div_int_pos_iff order_antisym)
    then have lt: "n < 128" using "1.prems" by presburger
    have u: "uint (word_of_int n :: byte) = n" using lt "1.prems" by (simp add: uint_word_of_int)
    have cb: "compact_bytes n = [word_of_int n]"
      using True lt "1.prems" by (subst compact_bytes.simps) simp
    show ?thesis using lt "1.prems" by (simp add: cb byte_low7 byte_flag u)
  next
    case False
    have cb: "compact_bytes n = word_of_int (n mod 128 + 128) # compact_bytes (n div 128)"
      using False by (subst compact_bytes.simps) simp
    have u: "uint (word_of_int (n mod 128) + 128 :: byte) = n mod 128 + 128"
    proof -
      have "uint (word_of_int (n mod 128 + 128) :: byte) = (n mod 128 + 128) mod 2 ^ 8"
        by (subst uint_word_of_int) simp
      also have "\<dots> = n mod 128 + 128" by simp
      finally show ?thesis by simp
    qed
    have ih: "decodeLength (compact_bytes (n div 128)) = Some (n div 128)"
      using False "1.prems" by (intro "1.IH") auto
    have m: "\<not> n mod 128 < 0" by (simp add: not_less)
    show ?thesis by (simp add: cb byte_low7 byte_flag u ih m)
  qed
qed

lemma length_compact_bytes_1: "0 \<le> n \<Longrightarrow> n < 128 \<Longrightarrow> compact_bytes n = [word_of_int n]"
  by (subst compact_bytes.simps) simp

lemma length_compact_bytes_2:
  "128 \<le> n \<Longrightarrow> n < 16384 \<Longrightarrow> length (compact_bytes n) = 2"
  by (subst compact_bytes.simps, subst compact_bytes.simps) simp

lemma length_compact_bytes_3:
  "16384 \<le> n \<Longrightarrow> n < 2097152 \<Longrightarrow> length (compact_bytes n) = 3"
proof -
  assume a: "16384 \<le> n" "n < 2097152"
  then have "128 \<le> n div 128" "n div 128 < 16384" by presburger+
  then have "length (compact_bytes (n div 128)) = 2" by (rule length_compact_bytes_2)
  moreover have "0 < n div 128" using a by presburger
  ultimately show ?thesis by (subst compact_bytes.simps) simp
qed

lemma encodeLength_bytes:
  "0 \<le> n \<Longrightarrow> n < 2 ^ 31 \<Longrightarrow>
   encodeLength n array offset =
     Some (length (compact_bytes n), write_bytes array offset (compact_bytes n))"
  using encodeLength_loop_bytes [of n 0 array offset] by (simp add: encodeLength_def)

lemma emitted_bytes:
  "offset + length bs \<le> length array \<Longrightarrow>
   take (length bs) (drop offset (write_bytes array offset bs)) = bs"
  by (simp add: write_bytes_fits)

lemma toInt32_range: "- (2 ^ 31) \<le> toInt32 n \<and> toInt32 n < 2 ^ 31"
  by (simp add: toInt32_def)

lemma toInt32_idem: "- (2 ^ 31) \<le> k \<Longrightarrow> k < 2 ^ 31 \<Longrightarrow> toInt32 k = k"
  by (simp add: toInt32_def)

lemma toInt32_js_sar: "toInt32 (js_sar n 7) = js_sar n 7"
proof -
  have r: "- (2 ^ 31) \<le> toInt32 n" "toInt32 n < 2 ^ 31" using toInt32_range [of n] by simp_all
  have "js_sar n 7 = toInt32 n div 128" by (simp add: js_sar_def drop_bit_eq_div)
  moreover have "- (2 ^ 31) \<le> toInt32 n div 128" "toInt32 n div 128 < 2 ^ 31"
    using r by simp_all
  ultimately show ?thesis by (simp add: toInt32_idem)
qed

lemma encodeLength_loop_returns_nonneg:
  assumes "encodeLength_loop rem_len len array offset = Some y"
  shows "0 \<le> toInt32 rem_len"
proof (rule encodeLength_loop.raw_induct
    [where P = "\<lambda>r _ _ _ _. 0 \<le> toInt32 r", OF _ assms])
  fix f :: "int \<Rightarrow> nat \<Rightarrow> byte list \<Rightarrow> nat \<Rightarrow> (nat \<times> byte list) option"
    and r l a off z
  assume ih: "\<And>r l a off z. f r l a off = Some z \<Longrightarrow> 0 \<le> toInt32 r"
  assume body: "(let elem = js_and r 0x7f;
          rem_len' = js_sar r 7;
          elem' = (if rem_len' \<noteq> 0 then js_or elem 0x80 else elem);
          array' = store a (off + l) elem';
          len' = l + 1
      in if rem_len' = 0 then Some (len', array')
         else f rem_len' len' array' off) = Some z"
  have d: "js_sar r 7 = toInt32 r div 128" by (simp add: js_sar_def drop_bit_eq_div)
  show "0 \<le> toInt32 r"
  proof (cases "js_sar r 7 = 0")
    case True
    then have "toInt32 r div 128 = 0" using d by simp
    then show ?thesis by presburger
  next
    case False
    with body obtain len' array' where "f (js_sar r 7) len' array' off = Some z"
      by (auto simp: Let_def)
    then have "0 \<le> toInt32 (js_sar r 7)" by (rule ih)
    then have "0 \<le> js_sar r 7" by (simp only: toInt32_js_sar)
    then have "0 \<le> toInt32 r div 128" by (simp only: d)
    then show ?thesis by (simp add: pos_imp_zdiv_nonneg_iff)
  qed
qed

lemma encodeLength_diverges:
  "toInt32 n < 0 \<Longrightarrow> encodeLength n array offset = None"
  using encodeLength_loop_returns_nonneg [of n 0 array offset]
  by (cases "encodeLength_loop n 0 array offset") (auto simp: encodeLength_def)

lemma encodeLength_diverges_example: "encodeLength 2147483648 array offset = None"
  by (rule encodeLength_diverges) (simp add: toInt32_def)

section \<open>Claims about the compact length encoding\<close>

text \<open>
  C3, as amended. For every integer \<open>n\<close> with \<open>0 \<le> n < 2^31\<close>, \<open>encodeLength\<close> returns,
  and when the buffer has room for the bytes it writes, decoding them as a base-128
  little-endian variable-length integer yields \<open>n\<close>; for \<open>n = 0\<close> the bytes are a single
  zero byte; the number of bytes is 1 for \<open>n < 128\<close>, 2 for \<open>128 \<le> n < 16384\<close> and 3 for
  \<open>16384 \<le> n < 2097152\<close>. (From \<open>2^31\<close> on the 32-bit operators see another number:
  \<open>encodeLength_diverges\<close> and the counterexample below.)
\<close>

theorem encodeLength_roundtrip:
  assumes "0 \<le> n" and "n < 2 ^ 31"
  shows "\<exists>len array'. encodeLength n array offset = Some (len, array') \<and>
           (offset + len \<le> length array \<longrightarrow>
              decodeLength (take len (drop offset array')) = Some n) \<and>
           (n = 0 \<and> offset + len \<le> length array \<longrightarrow> take len (drop offset array') = [0]) \<and>
           (n < 128 \<longrightarrow> len = 1) \<and>
           (128 \<le> n \<and> n < 16384 \<longrightarrow> len = 2) \<and>
           (16384 \<le> n \<and> n < 2097152 \<longrightarrow> len = 3)"
proof (intro exI conjI)
  show "encodeLength n array offset =
      Some (length (compact_bytes n), write_bytes array offset (compact_bytes n))"
    using assms by (rule encodeLength_bytes)
  show "offset + length (compact_bytes n) \<le> length array \<longrightarrow>
      decodeLength (take (length (compact_bytes n))
        (drop offset (write_bytes array offset (compact_bytes n)))) = Some n"
    using assms by (simp add: emitted_bytes decodeLength_compact_bytes)
  show "n = 0 \<and> offset + length (compact_bytes n) \<le> length array \<longrightarrow>
      take (length (compact_bytes n)) (drop offset (write_bytes array offset (compact_bytes n))) = [0]"
  proof
    assume a: "n = 0 \<and> offset + length (compact_bytes n) \<le> length array"
    then have cb: "compact_bytes n = [0]" by (simp add: length_compact_bytes_1)
    with a have "offset + length [0::byte] \<le> length array" by simp
    then have "take (length [0::byte]) (drop offset (write_bytes array offset [0])) = [0]"
      by (rule emitted_bytes)
    then show "take (length (compact_bytes n))
        (drop offset (write_bytes array offset (compact_bytes n))) = [0]"
      by (simp only: cb)
  qed
  show "n < 128 \<longrightarrow> length (compact_bytes n) = 1"
    using assms by (simp add: length_compact_bytes_1)
  show "128 \<le> n \<and> n < 16384 \<longrightarrow> length (compact_bytes n) = 2"
    by (simp add: length_compact_bytes_2)
  show "16384 \<le> n \<and> n < 2097152 \<longrightarrow> length (compact_bytes n) = 3"
    by (simp add: length_compact_bytes_3)
qed

theorem encodeLength_roundtrip_witness:
  "(0::int) \<le> 300 \<and> (300::int) < 2 ^ 31 \<and>
   encodeLength 300 [7, 7, 7, 7] 1 = Some (2, [7, 0xac, 0x02, 7]) \<and>
   decodeLength [0xac, 0x02] = Some 300"
proof -
  have h: "(0::int) \<le> 300" "(300::int) < 2 ^ 31" by simp_all
  from encodeLength_roundtrip [OF h, of "[7, 7, 7, 7]" 1]
  obtain len array' where e: "encodeLength 300 [7, 7, 7, 7] 1 = Some (len, array')"
    and d: "1 + len \<le> length [7, 7, 7, 7::byte] \<longrightarrow>
              decodeLength (take len (drop 1 array')) = Some 300"
    and l: "128 \<le> (300::int) \<and> (300::int) < 16384 \<longrightarrow> len = 2"
    by blast
  have c: "encodeLength 300 [7, 7, 7, 7] 1 = Some (2, [7, 0xac, 0x02, 7])"
    by (simp add: encodeLength_def encodeLength_loop.simps js_and_def js_sar_def js_or_def
        toInt32_def store_def Let_def)
  with e have "len = 2" "array' = [7, 0xac, 0x02, 7]" by simp_all
  with d have "decodeLength [0xac, 0x02] = Some 300" by simp
  with c show ?thesis by simp
qed

text \<open>
  C3 as stated fails from \<open>2^31\<close> on: at \<open>n = 2^32\<close> the operators see 0, one zero byte
  is written, and it decodes to 0.
\<close>

theorem encodeLength_roundtrip_counterexample:
  "encodeLength 4294967296 [7, 7, 7, 7, 7, 7] 0 = Some (1, [0, 7, 7, 7, 7, 7]) \<and>
   decodeLength (take 1 (drop 0 [0, 7, 7, 7, 7, 7])) = Some 0"
  by (simp add: encodeLength_def encodeLength_loop.simps js_and_def js_sar_def js_or_def
      toInt32_def store_def Let_def)

section \<open>The serializer: what each step writes\<close>

lemma length_compact_bytes_le:
  "0 \<le> n \<Longrightarrow> n < 128 ^ Suc k \<Longrightarrow> length (compact_bytes n) \<le> Suc k"
proof (induction k arbitrary: n)
  case 0
  then show ?case by (simp add: length_compact_bytes_1)
next
  case (Suc k)
  show ?case
  proof (cases "n div 128 \<le> 0")
    case True
    then show ?thesis by (subst compact_bytes.simps) simp
  next
    case False
    define X :: int where "X = 128 ^ Suc k"
    have "n < 128 * X" using Suc.prems(2) by (simp add: X_def)
    then have "n div 128 < X" by presburger
    then have "n div 128 < 128 ^ Suc k" by (simp only: X_def)
    moreover have "0 \<le> n div 128" using Suc.prems(1) by simp
    ultimately have "length (compact_bytes (n div 128)) \<le> Suc k" by (rule Suc.IH [rotated])
    then show ?thesis using False by (subst compact_bytes.simps) simp
  qed
qed


lemma length_compact_bytes_le5: "0 \<le> n \<Longrightarrow> n < 2 ^ 31 \<Longrightarrow> length (compact_bytes n) \<le> 5"
proof -
  assume a: "0 \<le> n" "n < 2 ^ 31"
  then have "n < 128 ^ Suc 4" by simp
  with a(1) have "length (compact_bytes n) \<le> Suc 4" by (rule length_compact_bytes_le)
  then show ?thesis by simp
qed

lemma length_compact_bytes_pos: "0 < length (compact_bytes n)"
  by (subst compact_bytes.simps) simp

lemma length_compact_bytes_count:
  "0 \<le> n \<Longrightarrow> n < 2097152 \<Longrightarrow> length (compact_bytes n) = getSignatureCountLength n"
proof -
  assume a: "0 \<le> n" "n < 2097152"
  consider "n < 128" | "128 \<le> n" "n < 16384" | "16384 \<le> n" by linarith
  then show ?thesis
  proof cases
    case 1
    then show ?thesis using a by (simp add: length_compact_bytes_1 getSignatureCountLength_def)
  next
    case 2
    then show ?thesis by (simp add: length_compact_bytes_2 getSignatureCountLength_def)
  next
    case 3
    then show ?thesis using a by (simp add: length_compact_bytes_3 getSignatureCountLength_def)
  qed
qed

lemma encodeCompactLength_bytes:
  "0 \<le> n \<Longrightarrow> n < 2 ^ 31 \<Longrightarrow> encodeCompactLength n = Some (compact_bytes n)"
proof -
  assume a: "0 \<le> n" "n < 2 ^ 31"
  have l: "0 + length (compact_bytes n) \<le> length (Buffer_alloc 5)"
    using length_compact_bytes_le5 [OF a] by (simp add: Buffer_alloc_def)
  have "take (length (compact_bytes n)) (write_bytes (Buffer_alloc 5) 0 (compact_bytes n))
      = compact_bytes n"
    using emitted_bytes [OF l] by simp
  then show ?thesis using a by (simp add: encodeCompactLength_def encodeLength_bytes)
qed

lemma length_Buffer_set: "Buffer_set target source offset = Inr w \<Longrightarrow> length w = length target"
  by (auto simp: Buffer_set_def split: if_splits)

lemma write_signatures_fits:
  "\<forall>p \<in> set ps. \<exists>s. signature p = Some s \<and> length s = 64 \<Longrightarrow>
   offset + 64 * length ps \<le> length wire \<Longrightarrow>
   write_signatures ps wire offset =
     Inr (take offset wire @ concat (map (\<lambda>p. the (signature p)) ps) @
          drop (offset + 64 * length ps) wire, offset + 64 * length ps)"
proof (induction ps arbitrary: wire offset)
  case Nil
  then show ?case by simp
next
  case (Cons p ps)
  from Cons.prems(1) obtain s where s: "signature p = Some s" "length s = 64" by auto
  let ?w = "take offset wire @ s @ drop (offset + 64) wire"
  have fit: "\<not> length wire < offset + length s" using Cons.prems(2) s by simp
  then have set: "Buffer_set wire s offset = Inr ?w" using s by (simp add: Buffer_set_def)
  have lw: "length ?w = length wire" using Cons.prems(2) s by simp
  have ih: "write_signatures ps ?w (offset + 64) =
     Inr (take (offset + 64) ?w @ concat (map (\<lambda>p. the (signature p)) ps) @
          drop (offset + 64 + 64 * length ps) ?w, offset + 64 + 64 * length ps)"
    using Cons.prems lw by (intro Cons.IH) auto
  have t: "take (offset + 64) ?w = take offset wire @ s"
    using Cons.prems(2) s by simp
  have d: "drop (offset + 64 + 64 * length ps) ?w = drop (offset + 64 * length (p # ps)) wire"
  proof -
    define pre where "pre = take offset wire @ s"
    have l: "length pre = offset + 64" using Cons.prems(2) s by (simp add: pre_def)
    have w: "?w = pre @ drop (offset + 64) wire" by (simp add: pre_def)
    have "drop (offset + 64 + 64 * length ps) (pre @ drop (offset + 64) wire)
        = drop (64 * length ps) (drop (offset + 64) wire)"
      by (simp add: l)
    also have "\<dots> = drop (64 * length ps + (offset + 64)) wire" by (simp only: drop_drop)
    also have "\<dots> = drop (offset + 64 * length (p # ps)) wire"
      by (rule arg_cong [where f = "\<lambda>k. drop k wire"]) simp
    finally show ?thesis by (simp only: w)
  qed
  have step: "write_signatures (p # ps) wire offset = write_signatures ps ?w (offset + 64)"
    using s by (simp add: set)
  have c: "concat (map (\<lambda>p. the (signature p)) (p # ps)) = s @ concat (map (\<lambda>p. the (signature p)) ps)"
    using s by simp
  have n: "offset + 64 + 64 * length ps = offset + 64 * length (p # ps)" by simp
  show ?case by (simp only: step ih t c n d [unfolded n] append_assoc)
qed

lemma write_signatures_append:
  "write_signatures (ps @ qs) wire offset =
     (case write_signatures ps wire offset of
        Inl e \<Rightarrow> Inl e
      | Inr (wire', offset') \<Rightarrow> write_signatures qs wire' offset')"
  by (induction ps arbitrary: wire offset) (auto split: option.splits sum.splits)

lemma length_concat_signatures:
  "\<forall>p \<in> set ps. \<exists>s. signature p = Some s \<and> length s = 64 \<Longrightarrow>
   length (concat (map (\<lambda>p. the (signature p)) ps)) = 64 * length ps"
  by (induction ps) auto

lemma serialize_steps:
  fixes tx :: transaction and serializedMessage :: "byte list"
  assumes full: "\<forall>p \<in> set (signatures tx). \<exists>s. signature p = Some s \<and> length s = 64"
    and small: "length (signatures tx) < 2097152"
  defines "count \<equiv> length (signatures tx)"
  defines "k \<equiv> getSignatureCountLength (int count)"
  defines "tsize \<equiv> k + count * 64 + length serializedMessage"
  defines "sigs \<equiv> concat (map (\<lambda>p. the (signature p)) (signatures tx))"
  defines "wire1 \<equiv> compact_bytes (int count) @ replicate (count * 64 + length serializedMessage) 0"
  defines "wire2 \<equiv> compact_bytes (int count) @ sigs @ replicate (length serializedMessage) 0"
  shows "encodeLength (int count) (Buffer_alloc tsize) 0 = Some (k, wire1)"
    and "write_signatures (signatures tx) wire1 k = Inr (wire2, k + 64 * count)"
    and "Buffer_set wire2 serializedMessage (k + 64 * count) =
           Inr (compact_bytes (int count) @ sigs @ serializedMessage)"
    and "length (compact_bytes (int count)) = k"
    and "length sigs = 64 * count"
proof -
  have n: "0 \<le> int count" "int count < 2097152" "int count < 2 ^ 31"
    using small by (simp_all add: count_def)
  show k: "length (compact_bytes (int count)) = k"
    using n by (simp add: k_def length_compact_bytes_count)
  show ls: "length sigs = 64 * count"
    using full by (simp add: sigs_def count_def length_concat_signatures)
  have "write_bytes (Buffer_alloc tsize) 0 (compact_bytes (int count)) =
      take 0 (Buffer_alloc tsize) @ compact_bytes (int count) @
      drop (0 + length (compact_bytes (int count))) (Buffer_alloc tsize)"
    by (rule write_bytes_fits) (simp add: Buffer_alloc_def tsize_def k)
  also have "\<dots> = wire1"
    by (simp add: Buffer_alloc_def tsize_def k wire1_def)
  finally have wb: "write_bytes (Buffer_alloc tsize) 0 (compact_bytes (int count)) = wire1" .
  show "encodeLength (int count) (Buffer_alloc tsize) 0 = Some (k, wire1)"
    using n by (simp add: encodeLength_bytes k wb)
  have l1: "length wire1 = k + count * 64 + length serializedMessage"
    by (simp add: wire1_def k)
  have "write_signatures (signatures tx) wire1 k =
      Inr (take k wire1 @ concat (map (\<lambda>p. the (signature p)) (signatures tx)) @
           drop (k + 64 * length (signatures tx)) wire1, k + 64 * length (signatures tx))"
    using full by (rule write_signatures_fits) (simp add: l1 count_def)
  moreover have "take k wire1 = compact_bytes (int count)"
    by (simp add: wire1_def k)
  moreover have "drop (k + 64 * length (signatures tx)) wire1 =
      replicate (length serializedMessage) 0"
    by (simp add: wire1_def k [unfolded count_def] count_def)
  ultimately show "write_signatures (signatures tx) wire1 k = Inr (wire2, k + 64 * count)"
    by (simp add: wire2_def sigs_def count_def)
  have l2: "length (compact_bytes (int count) @ sigs) = k + 64 * count"
    by (simp add: k ls)
  have "take (k + 64 * count) wire2 = compact_bytes (int count) @ sigs"
    using l2 by (simp add: wire2_def)
  moreover have "drop (k + 64 * count + length serializedMessage) wire2 = []"
    by (simp add: wire2_def k ls)
  moreover have "length wire2 = k + 64 * count + length serializedMessage"
    by (simp add: wire2_def k ls)
  ultimately show "Buffer_set wire2 serializedMessage (k + 64 * count) =
      Inr (compact_bytes (int count) @ sigs @ serializedMessage)"
    by (simp add: Buffer_set_def)
qed

lemma customSerializeTransaction_bytes:
  assumes "\<forall>p \<in> set (signatures tx). \<exists>s. signature p = Some s \<and> length s = 64"
    and "length (signatures tx) < 2097152"
  shows "customSerializeTransaction serializedMessage tx =
      Some (Inr (compact_bytes (int (length (signatures tx)))
        @ concat (map (\<lambda>p. the (signature p)) (signatures tx)) @ serializedMessage))"
  using serialize_steps(1,2,3) [OF assms]
  by (simp add: customSerializeTransaction_def Let_def)

lemma Buffer_alloc_5: "Buffer_alloc 5 = [0, 0, 0, 0, 0]"
  by (simp add: Buffer_alloc_def eval_nat_numeral)

section \<open>Claims about the serializer\<close>

text \<open>
  C5, as amended. For every sequence of fewer than 2,097,152 fully present 64-byte
  signatures and every message body, \<open>customSerializeTransaction\<close> returns a buffer that is
  the compact length encoding of the signature count, then the signatures in signer order,
  then the message body, and its length is the length of the encoding plus 64 for each
  signature plus the length of the body. No size ceiling is enforced.
\<close>

theorem customSerializeTransaction_layout:
  assumes "\<forall>p \<in> set (signatures tx). \<exists>s. signature p = Some s \<and> length s = 64"
    and "length (signatures tx) < 2097152"
  shows "\<exists>prefix wire.
           encodeCompactLength (int (length (signatures tx))) = Some prefix \<and>
           customSerializeTransaction serializedMessage tx = Some (Inr wire) \<and>
           wire = prefix @ concat (map (\<lambda>p. the (signature p)) (signatures tx))
                    @ serializedMessage \<and>
           length wire = length prefix + 64 * length (signatures tx) + length serializedMessage"
proof -
  note st = serialize_steps [OF assms]
  have n: "0 \<le> int (length (signatures tx))" "int (length (signatures tx)) < 2 ^ 31"
    using assms(2) by simp_all
  have "encodeCompactLength (int (length (signatures tx))) =
      Some (compact_bytes (int (length (signatures tx))))"
    using n by (rule encodeCompactLength_bytes)
  moreover have "customSerializeTransaction serializedMessage tx =
      Some (Inr (compact_bytes (int (length (signatures tx)))
        @ concat (map (\<lambda>p. the (signature p)) (signatures tx)) @ serializedMessage))"
    by (simp add: customSerializeTransaction_def Let_def st(1) st(2) st(3))
  moreover have "length (compact_bytes (int (length (signatures tx)))
        @ concat (map (\<lambda>p. the (signature p)) (signatures tx)) @ serializedMessage) =
      length (compact_bytes (int (length (signatures tx)))) + 64 * length (signatures tx)
        + length serializedMessage"
    by (simp add: st(5))
  ultimately show ?thesis by blast
qed

theorem customSerializeTransaction_layout_witness:
  "customSerializeTransaction [9, 9, 9]
     \<lparr>instructions = [], recentBlockhash = None,
      signatures = [\<lparr>signature = Some (replicate 64 7), publicKey = ''payer''\<rparr>]\<rparr>
   = Some (Inr ([1] @ replicate 64 7 @ [9, 9, 9]))"
proof -
  let ?tx = "\<lparr>instructions = [], recentBlockhash = None,
      signatures = [\<lparr>signature = Some (replicate 64 (7::byte)), publicKey = ''payer''\<rparr>]\<rparr>"
  have h1: "\<forall>p \<in> set (signatures ?tx). \<exists>s. signature p = Some s \<and> length s = 64" by simp
  have h2: "length (signatures ?tx) < 2097152" by simp
  have e: "encodeCompactLength (int (length (signatures ?tx))) = Some [1]"
    by (simp add: encodeCompactLength_def encodeLength_def encodeLength_loop.simps js_and_def
        js_sar_def js_or_def toInt32_def store_def Let_def Buffer_alloc_5)
  from customSerializeTransaction_layout [OF h1 h2, of "[9, 9, 9]"] e
  show ?thesis by auto
qed

text \<open>
  C10. For every count \<open>n\<close> with \<open>0 \<le> n < 2097152\<close>, \<open>getSignatureCountLength n\<close> is the
  number of bytes \<open>encodeLength\<close> writes for \<open>n\<close>. So in
  \<open>customSerializeTransaction\<close>, for fully present 64-byte signatures, the allocated buffer
  is exactly filled and every write stays inside it: the length prefix takes the first
  \<open>getSignatureCountLength\<close> bytes and leaves the rest zero, the signatures are copied
  behind it in signer order, 64 bytes each, and the body is set behind them without a
  \<open>RangeError\<close>; the buffer returned is the prefix, the signatures and the body with no
  byte of the allocation left over.
\<close>

theorem getSignatureCountLength_exact:
  "(\<forall>n array offset. 0 \<le> n \<and> n < 2097152 \<longrightarrow>
      encodeLength n array offset =
        Some (getSignatureCountLength n, write_bytes array offset (compact_bytes n)) \<and>
      length (compact_bytes n) = getSignatureCountLength n) \<and>
   ((\<forall>p \<in> set (signatures tx). \<exists>s. signature p = Some s \<and> length s = 64) \<and>
    length (signatures tx) < 2097152 \<longrightarrow>
      getSignatureCountLength (int (length (signatures tx)))
        \<le> length (Buffer_alloc (getSignatureCountLength (int (length (signatures tx)))
              + length (signatures tx) * 64 + length serializedMessage)) \<and>
      encodeLength (int (length (signatures tx)))
        (Buffer_alloc (getSignatureCountLength (int (length (signatures tx)))
           + length (signatures tx) * 64 + length serializedMessage)) 0
        = Some (getSignatureCountLength (int (length (signatures tx))),
                compact_bytes (int (length (signatures tx)))
                  @ replicate (length (signatures tx) * 64 + length serializedMessage) 0) \<and>
      write_signatures (signatures tx)
        (compact_bytes (int (length (signatures tx)))
           @ replicate (length (signatures tx) * 64 + length serializedMessage) 0)
        (getSignatureCountLength (int (length (signatures tx))))
        = Inr (compact_bytes (int (length (signatures tx)))
                 @ concat (map (\<lambda>p. the (signature p)) (signatures tx))
                 @ replicate (length serializedMessage) 0,
               getSignatureCountLength (int (length (signatures tx)))
                 + 64 * length (signatures tx)) \<and>
      Buffer_set
        (compact_bytes (int (length (signatures tx)))
           @ concat (map (\<lambda>p. the (signature p)) (signatures tx))
           @ replicate (length serializedMessage) 0)
        serializedMessage
        (getSignatureCountLength (int (length (signatures tx))) + 64 * length (signatures tx))
        = Inr (compact_bytes (int (length (signatures tx)))
                 @ concat (map (\<lambda>p. the (signature p)) (signatures tx))
                 @ serializedMessage) \<and>
      length (compact_bytes (int (length (signatures tx)))
                @ concat (map (\<lambda>p. the (signature p)) (signatures tx))
                @ serializedMessage)
        = length (Buffer_alloc (getSignatureCountLength (int (length (signatures tx)))
              + length (signatures tx) * 64 + length serializedMessage)) \<and>
      customSerializeTransaction serializedMessage tx
        = Some (Inr (compact_bytes (int (length (signatures tx)))
                 @ concat (map (\<lambda>p. the (signature p)) (signatures tx))
                 @ serializedMessage)))"
proof (intro conjI allI impI)
  fix n :: int and array :: "byte list" and offset :: nat
  assume a: "0 \<le> n \<and> n < 2097152"
  then show l: "length (compact_bytes n) = getSignatureCountLength n"
    by (simp add: length_compact_bytes_count)
  from a have "encodeLength n array offset =
      Some (length (compact_bytes n), write_bytes array offset (compact_bytes n))"
    by (intro encodeLength_bytes) simp_all
  then show "encodeLength n array offset =
      Some (getSignatureCountLength n, write_bytes array offset (compact_bytes n))"
    by (simp only: l)
next
  assume h: "(\<forall>p \<in> set (signatures tx). \<exists>s. signature p = Some s \<and> length s = 64) \<and>
    length (signatures tx) < 2097152"
  then have h1: "\<forall>p \<in> set (signatures tx). \<exists>s. signature p = Some s \<and> length s = 64"
    and h2: "length (signatures tx) < 2097152" by simp_all
  note st = serialize_steps [OF h1 h2]
  let ?k = "getSignatureCountLength (int (length (signatures tx)))"
  let ?cb = "compact_bytes (int (length (signatures tx)))"
  let ?sigs = "concat (map (\<lambda>p. the (signature p)) (signatures tx))"
  show "?k \<le> length (Buffer_alloc (?k + length (signatures tx) * 64
      + length serializedMessage))"
    by (simp add: Buffer_alloc_def)
  show "encodeLength (int (length (signatures tx)))
        (Buffer_alloc (?k + length (signatures tx) * 64 + length serializedMessage)) 0
        = Some (?k, ?cb @ replicate (length (signatures tx) * 64 + length serializedMessage) 0)"
    by (rule st(1))
  show "write_signatures (signatures tx)
        (?cb @ replicate (length (signatures tx) * 64 + length serializedMessage) 0) ?k
        = Inr (?cb @ ?sigs @ replicate (length serializedMessage) 0,
               ?k + 64 * length (signatures tx))"
    by (rule st(2))
  show "Buffer_set (?cb @ ?sigs @ replicate (length serializedMessage) 0) serializedMessage
        (?k + 64 * length (signatures tx)) = Inr (?cb @ ?sigs @ serializedMessage)"
    by (rule st(3))
  show "length (?cb @ ?sigs @ serializedMessage)
        = length (Buffer_alloc (?k + length (signatures tx) * 64 + length serializedMessage))"
    by (simp add: st(4) st(5) Buffer_alloc_def)
  show "customSerializeTransaction serializedMessage tx = Some (Inr (?cb @ ?sigs @ serializedMessage))"
    using h1 h2 by (rule customSerializeTransaction_bytes)
qed

theorem getSignatureCountLength_exact_witness:
  "getSignatureCountLength 200 = 2 \<and>
   encodeLength 200 [0, 0, 0] 0 = Some (2, [0xc8, 0x01, 0]) \<and>
   write_signatures
     [\<lparr>signature = Some (replicate 64 7), publicKey = ''payer''\<rparr>,
      \<lparr>signature = Some (replicate 64 8), publicKey = ''cosigner''\<rparr>]
     ([2] @ replicate 130 0) 1
     = Inr ([2] @ replicate 64 7 @ replicate 64 8 @ [0, 0], 129) \<and>
   customSerializeTransaction [5, 6]
     \<lparr>instructions = [], recentBlockhash = None,
      signatures = [\<lparr>signature = Some (replicate 64 7), publicKey = ''payer''\<rparr>,
                    \<lparr>signature = Some (replicate 64 8), publicKey = ''cosigner''\<rparr>]\<rparr>
     = Some (Inr ([2] @ replicate 64 7 @ replicate 64 8 @ [5, 6]))"
proof -
  let ?tx = "\<lparr>instructions = [], recentBlockhash = None,
      signatures = [\<lparr>signature = Some (replicate 64 (7::byte)), publicKey = ''payer''\<rparr>,
                    \<lparr>signature = Some (replicate 64 (8::byte)), publicKey = ''cosigner''\<rparr>]\<rparr>"
  have h: "(\<forall>p \<in> set (signatures ?tx). \<exists>s. signature p = Some s \<and> length s = 64) \<and>
      length (signatures ?tx) < 2097152" by simp
  have n: "(0::int) \<le> 200 \<and> (200::int) < 2097152" by simp
  note t = getSignatureCountLength_exact [of ?tx "[5, 6]"]
  have g: "getSignatureCountLength 200 = 2" "getSignatureCountLength 2 = 1"
    by (simp_all add: getSignatureCountLength_def)
  have c2: "compact_bytes 2 = [2]" by (simp add: length_compact_bytes_1)
  have c200: "compact_bytes 200 = [0xc8, 0x01]"
    by (subst compact_bytes.simps, simp, subst compact_bytes.simps, simp)
  from t n have "encodeLength 200 [0, 0, 0] 0 =
      Some (getSignatureCountLength 200, write_bytes [0, 0, 0] 0 (compact_bytes 200))"
    by blast
  then have e: "encodeLength 200 [0, 0, 0] 0 = Some (2, [0xc8, 0x01, 0])"
    by (simp add: g c200)
  from t h have w: "write_signatures (signatures ?tx)
        (compact_bytes (int (length (signatures ?tx)))
           @ replicate (length (signatures ?tx) * 64 + length [5, 6::byte]) 0)
        (getSignatureCountLength (int (length (signatures ?tx))))
        = Inr (compact_bytes (int (length (signatures ?tx)))
                 @ concat (map (\<lambda>p. the (signature p)) (signatures ?tx))
                 @ replicate (length [5, 6::byte]) 0,
               getSignatureCountLength (int (length (signatures ?tx)))
                 + 64 * length (signatures ?tx))"
    and s: "customSerializeTransaction [5, 6] ?tx
        = Some (Inr (compact_bytes (int (length (signatures ?tx)))
                 @ concat (map (\<lambda>p. the (signature p)) (signatures ?tx))
                 @ [5, 6]))"
    by blast+
  have r2: "replicate 2 (0::byte) = [0, 0]" by (simp add: numeral_2_eq_2)
  from w have w': "write_signatures
     [\<lparr>signature = Some (replicate 64 7), publicKey = ''payer''\<rparr>,
      \<lparr>signature = Some (replicate 64 8), publicKey = ''cosigner''\<rparr>]
     ([2] @ replicate 130 0) 1
     = Inr ([2] @ replicate 64 7 @ replicate 64 8 @ [0, 0], 129)"
    by (simp add: g c2 r2)
  from s have s': "customSerializeTransaction [5, 6] ?tx
     = Some (Inr ([2] @ replicate 64 7 @ replicate 64 8 @ [5, 6]))"
    by (simp add: c2)
  from g(1) e w' s' show ?thesis by simp
qed

lemma compact_bytes_2097152: "compact_bytes 2097152 = [0x80, 0x80, 0x80, 1]"
  by (subst compact_bytes.simps, simp, subst compact_bytes.simps, simp,
      subst compact_bytes.simps, simp, subst compact_bytes.simps, simp)

text \<open>
  C5 as stated fails from 2,097,152 signatures on: the buffer is sized with
  \<open>getSignatureCountLength\<close>, which answers 3, while \<open>encodeLength\<close> writes 4 bytes, so
  the last write does not fit and \<open>set\<close> throws.
\<close>

theorem customSerializeTransaction_layout_counterexample:
  "customSerializeTransaction [9, 9, 9]
     \<lparr>instructions = [], recentBlockhash = None,
      signatures = replicate 2097152 \<lparr>signature = Some (replicate 64 7), publicKey = ''payer''\<rparr>\<rparr>
   = Some (Inl (RangeError ''offset is out of bounds''))"
proof -
  define sigs where
    "sigs = replicate 2097152 \<lparr>signature = Some (replicate 64 (7::byte)), publicKey = ''payer''\<rparr>"
  have ls: "length sigs = 2097152" by (simp add: sigs_def)
  have full: "\<forall>p \<in> set sigs. \<exists>s. signature p = Some s \<and> length s = 64"
    by (simp add: sigs_def)
  define wire1 where
    "wire1 = write_bytes (Buffer_alloc 134217734) 0 (compact_bytes 2097152)"
  have l1: "length wire1 = 134217734"
    by (simp add: wire1_def length_write_bytes Buffer_alloc_def)
  have enc: "encodeLength 2097152 (Buffer_alloc 134217734) 0 = Some (4, wire1)"
    by (simp add: encodeLength_bytes wire1_def) (simp add: compact_bytes_2097152)
  define wire2 where
    "wire2 = take 4 wire1 @ concat (map (\<lambda>p. the (signature p)) sigs) @ drop (4 + 64 * length sigs) wire1"
  have "write_signatures sigs wire1 4 = Inr (wire2, 4 + 64 * length sigs)"
    unfolding wire2_def using full by (rule write_signatures_fits) (simp add: l1 ls)
  then have ws: "write_signatures sigs wire1 4 = Inr (wire2, 134217732)"
    by (simp add: ls)
  have l2: "length wire2 = 134217734"
    by (simp add: wire2_def l1 ls length_concat_signatures [OF full])
  have bs: "Buffer_set wire2 [9, 9, 9] 134217732 = Inl (RangeError ''offset is out of bounds'')"
    unfolding Buffer_set_def by (simp add: l2)
  have g: "getSignatureCountLength 2097152 = 3" by (simp add: getSignatureCountLength_def)
  have "customSerializeTransaction [9, 9, 9]
     \<lparr>instructions = [], recentBlockhash = None, signatures = sigs\<rparr>
     = Some (Inl (RangeError ''offset is out of bounds''))"
    by (simp add: customSerializeTransaction_def Let_def ls g enc ws bs)
  then show ?thesis by (simp only: sigs_def)
qed

text \<open>
  C6, as amended. For every transaction with at least one empty signature slot, whose
  present signatures have 64 bytes and whose signature count is below \<open>2^31\<close>,
  \<open>customSerializeTransaction\<close> throws the error with the message
  \<open>Transaction must be fully signed before serialization\<close> and returns no buffer. The
  message is fixed: it does not say which slot is empty.
\<close>

theorem customSerializeTransaction_missing_signature:
  assumes "\<exists>p \<in> set (signatures tx). signature p = None"
    and "\<forall>p \<in> set (signatures tx). \<forall>s. signature p = Some s \<longrightarrow> length s = 64"
    and "length (signatures tx) < 2 ^ 31"
  shows "customSerializeTransaction serializedMessage tx =
           Some (Inl (Error ''Transaction must be fully signed before serialization''))"
proof -
  from assms(1) obtain pre e post where sp: "signatures tx = pre @ e # post"
    and e: "signature e = None" and pre: "\<forall>p \<in> set pre. signature p \<noteq> None"
    by (auto dest!: split_list_first_prop [where P = "\<lambda>p. signature p = None"])
  have full: "\<forall>p \<in> set pre. \<exists>s. signature p = Some s \<and> length s = 64"
  proof
    fix p
    assume p: "p \<in> set pre"
    with pre obtain s where s: "signature p = Some s" by auto
    from p sp have "p \<in> set (signatures tx)" by simp
    with assms(2) s have "length s = 64" by blast
    with s show "\<exists>s. signature p = Some s \<and> length s = 64" by simp
  qed
  define count where "count = length (signatures tx)"
  define k where "k = getSignatureCountLength (int count)"
  define tsize where "tsize = k + count * 64 + length serializedMessage"
  define cb where "cb = compact_bytes (int count)"
  define wire1 where "wire1 = write_bytes (Buffer_alloc tsize) 0 cb"
  have n: "0 \<le> int count" "int count < 2 ^ 31" using assms(3) by (simp_all add: count_def)
  have enc: "encodeLength (int count) (Buffer_alloc tsize) 0 = Some (length cb, wire1)"
    using n by (simp add: encodeLength_bytes cb_def wire1_def)
  have l1: "length wire1 = tsize" by (simp add: wire1_def length_write_bytes Buffer_alloc_def)
  have cb5: "length cb \<le> 5" using n unfolding cb_def by (rule length_compact_bytes_le5)
  have k1: "1 \<le> k" by (simp add: k_def getSignatureCountLength_def)
  have c: "count = length pre + 1 + length post" by (simp add: count_def sp)
  have fit: "length cb + 64 * length pre \<le> length wire1"
    using cb5 k1 by (simp add: l1 tsize_def c)
  have "write_signatures pre wire1 (length cb) =
      Inr (take (length cb) wire1 @ concat (map (\<lambda>p. the (signature p)) pre) @
           drop (length cb + 64 * length pre) wire1, length cb + 64 * length pre)"
    using full fit by (rule write_signatures_fits)
  then have ws: "write_signatures (signatures tx) wire1 (length cb) =
      Inl (Error ''Transaction must be fully signed before serialization'')"
    by (simp add: sp write_signatures_append e)
  show ?thesis
    using enc ws
    by (simp add: customSerializeTransaction_def Let_def count_def [symmetric] k_def [symmetric]
        tsize_def [symmetric])
qed

theorem customSerializeTransaction_missing_signature_witness:
  "customSerializeTransaction [9, 9, 9]
     \<lparr>instructions = [], recentBlockhash = None,
      signatures = [\<lparr>signature = Some (replicate 64 7), publicKey = ''payer''\<rparr>,
                    \<lparr>signature = None, publicKey = ''cosigner''\<rparr>]\<rparr>
   = Some (Inl (Error ''Transaction must be fully signed before serialization''))"
proof -
  let ?tx = "\<lparr>instructions = [], recentBlockhash = None,
      signatures = [\<lparr>signature = Some (replicate 64 (7::byte)), publicKey = ''payer''\<rparr>,
                    \<lparr>signature = None, publicKey = ''cosigner''\<rparr>]\<rparr>"
  have h1: "\<exists>p \<in> set (signatures ?tx). signature p = None" by simp
  have h2: "\<forall>p \<in> set (signatures ?tx). \<forall>s. signature p = Some s \<longrightarrow> length s = 64" by simp
  have h3: "length (signatures ?tx) < 2 ^ 31" by simp
  show ?thesis by (rule customSerializeTransaction_missing_signature [OF h1 h2 h3])
qed

text \<open>
  C6 as stated asks for an error naming the empty slot. The error is the same whether the
  first slot or the second is the empty one.
\<close>

theorem customSerializeTransaction_missing_signature_counterexample:
  "customSerializeTransaction [9, 9, 9]
     \<lparr>instructions = [], recentBlockhash = None,
      signatures = [\<lparr>signature = None, publicKey = ''payer''\<rparr>,
                    \<lparr>signature = Some (replicate 64 7), publicKey = ''cosigner''\<rparr>]\<rparr>
   = Some (Inl (Error ''Transaction must be fully signed before serialization'')) \<and>
   customSerializeTransaction [9, 9, 9]
     \<lparr>instructions = [], recentBlockhash = None,
      signatures = [\<lparr>signature = Some (replicate 64 7), publicKey = ''payer''\<rparr>,
                    \<lparr>signature = None, publicKey = ''cosigner''\<rparr>]\<rparr>
   = Some (Inl (Error ''Transaction must be fully signed before serialization''))"
  by (simp add: customSerializeTransaction_def Let_def getSignatureCountLength_def
      encodeLength_def encodeLength_loop.simps js_and_def js_sar_def js_or_def toInt32_def
      store_def Buffer_alloc_def Buffer_set_def)

section \<open>The batch loops\<close>

lemma add_instructions_slice:
  "0 \<le> j \<Longrightarrow> j \<le> upperIndex \<Longrightarrow>
   add_instructions allInstructions j upperIndex tx =
     tx\<lparr>instructions := instructions tx @ take (nat (upperIndex - j)) (drop (nat j) allInstructions)\<rparr>"
proof (induction allInstructions j upperIndex tx rule: add_instructions.induct)
  case (1 allInstructions j upperIndex tx)
  show ?case
  proof (cases "j < upperIndex")
    case False
    with "1.prems" have "j = upperIndex" by simp
    then show ?thesis by (subst add_instructions.simps) simp
  next
    case True
    let ?tx = "if 0 \<le> j \<and> nat j < length allInstructions
               then tx_add tx (allInstructions ! nat j) else tx"
    have ih: "add_instructions allInstructions (j + 1) upperIndex ?tx =
        ?tx\<lparr>instructions := instructions ?tx @
          take (nat (upperIndex - (j + 1))) (drop (nat (j + 1)) allInstructions)\<rparr>"
      using True "1.prems" by (intro "1.IH") auto
    have n: "nat (upperIndex - j) = Suc (nat (upperIndex - (j + 1)))" using True by simp
    have m: "nat (j + 1) = Suc (nat j)" using "1.prems" by simp
    have "instructions ?tx @ take (nat (upperIndex - (j + 1))) (drop (nat (j + 1)) allInstructions)
        = instructions tx @ take (nat (upperIndex - j)) (drop (nat j) allInstructions)"
    proof (cases "nat j < length allInstructions")
      case True
      then have "drop (nat j) allInstructions =
          allInstructions ! nat j # drop (Suc (nat j)) allInstructions"
        by (simp add: Cons_nth_drop_Suc)
      then show ?thesis using True "1.prems" by (simp add: n m tx_add_def)
    next
      case False
      then show ?thesis by (simp add: m)
    qed
    moreover have "add_instructions allInstructions j upperIndex tx =
        add_instructions allInstructions (j + 1) upperIndex ?tx"
      using True by (subst add_instructions.simps) simp
    ultimately show ?thesis using ih by (simp add: tx_add_def)
  qed
qed

lemma batch_loop_step:
  assumes "0 < batchSize" and "0 \<le> i"
  shows "add_instructions allInstructions (i * batchSize) ((i + 1) * batchSize) new_Transaction
      = chunk allInstructions batchSize (nat i)"
proof -
  have a: "0 \<le> i * batchSize" "i * batchSize \<le> (i + 1) * batchSize"
    using assms by (simp_all add: algebra_simps)
  have d: "(i + 1) * batchSize - i * batchSize = batchSize" by (simp add: algebra_simps)
  have n: "nat (i * batchSize) = nat i * nat batchSize" using assms by (simp add: nat_mult_distrib)
  show ?thesis
    by (simp add: add_instructions_slice [OF a] d n chunk_def new_Transaction_def)
qed

lemma batch_loop_chunks:
  assumes "0 < batchSize"
  shows "0 \<le> i \<Longrightarrow> i \<le> n \<Longrightarrow>
    batch_loop allInstructions batchSize (Finite n) i paymentBatches =
      Some (paymentBatches @ map (chunk allInstructions batchSize) [nat i..<nat n])"
proof (induction "nat (n - i)" arbitrary: i paymentBatches)
  case 0
  then have "i = n" by simp
  then show ?case by (subst batch_loop.simps) simp
next
  case (Suc d)
  then have lt: "i < n" by simp
  have ih: "batch_loop allInstructions batchSize (Finite n) (i + 1)
      (paymentBatches @ [chunk allInstructions batchSize (nat i)]) =
    Some ((paymentBatches @ [chunk allInstructions batchSize (nat i)]) @
      map (chunk allInstructions batchSize) [nat (i + 1)..<nat n])"
    using Suc.hyps(2) Suc.prems lt by (intro Suc.hyps(1)) auto
  have u: "[nat i..<nat n] = nat i # [nat (i + 1)..<nat n]"
    using lt Suc.prems by (simp add: upt_conv_Cons nat_add_distrib)
  show ?case
    using lt by (subst batch_loop.simps)
      (simp add: Let_def batch_loop_step [OF assms Suc.prems(1)] ih u)
qed

lemma concat_chunks:
  "concat (map (\<lambda>k. take b (drop (k * b) xs)) [0..<n]) = take (n * b) xs"
proof (induction n)
  case 0
  then show ?case by simp
next
  case (Suc n)
  have "take (Suc n * b) xs = take (n * b + b) xs" by (simp add: add.commute)
  also have "\<dots> = take (n * b) xs @ take b (drop (n * b) xs)" by (rule take_add)
  finally show ?case using Suc by simp
qed

lemma ceil_bounds:
  fixes L B :: int
  assumes "0 < B"
  shows "L \<le> - ((- L) div B) * B" and "(- ((- L) div B) - 1) * B < L"
proof -
  define q where "q = (- L) div B"
  define r where "r = (- L) mod B"
  define p where "p = B * q"
  have e: "- L = p + r" by (simp add: p_def q_def r_def)
  have m: "0 \<le> r" "r < B" using assms by (simp_all add: r_def)
  have x: "- q * B = - p" "(- q - 1) * B = - p - B" by (simp_all add: p_def algebra_simps)
  show "L \<le> - ((- L) div B) * B" using e m unfolding q_def [symmetric] x by linarith
  show "(- ((- L) div B) - 1) * B < L" using e m unfolding q_def [symmetric] x by linarith
qed

lemma instructions_chunk:
  "instructions (chunk allInstructions batchSize k) =
     take (nat batchSize) (drop (k * nat batchSize) allInstructions)"
  by (simp add: chunk_def new_Transaction_def)

section \<open>Claims about the batches\<close>

text \<open>
  C4. For every instruction list of length \<open>L\<close> and every batch size \<open>B > 0\<close>, the slicing
  loop of \<open>generateTransactions\<close> returns exactly \<open>\<lceil>L / B\<rceil>\<close> batches, the batches
  concatenated in order are the original list, and every batch but the last holds exactly
  \<open>B\<close> instructions.
\<close>

theorem partition_batches:
  assumes "0 < batchSize"
  shows "\<exists>batches.
      batch_loop allInstructions batchSize
        (Math_ceil_div (length allInstructions) batchSize) 0 [] = Some batches \<and>
      int (length batches) = \<lceil>real (length allInstructions) / real_of_int batchSize\<rceil> \<and>
      concat (map instructions batches) = allInstructions \<and>
      (\<forall>k. Suc k < length batches \<longrightarrow> length (instructions (batches ! k)) = nat batchSize)"
proof -
  define L where "L = int (length allInstructions)"
  define n where "n = - ((- L) div batchSize)"
  define b where "b = nat batchSize"
  define batches where "batches = map (chunk allInstructions batchSize) [0..<nat n]"
  have up: "L \<le> n * batchSize" and low: "(n - 1) * batchSize < L"
    using ceil_bounds [OF assms, of L] by (simp_all add: n_def)
  have n0: "0 \<le> n"
  proof (rule ccontr)
    assume "\<not> 0 \<le> n"
    then have "n * batchSize < 0" using assms by (simp add: mult_less_0_iff)
    with up show False by (simp add: L_def)
  qed
  have B: "batchSize = int b" using assms by (simp add: b_def)
  have m: "Math_ceil_div (length allInstructions) batchSize = Finite n"
    using assms by (simp add: Math_ceil_div_def n_def L_def)
  have 1: "batch_loop allInstructions batchSize
      (Math_ceil_div (length allInstructions) batchSize) 0 [] = Some batches"
    using batch_loop_chunks [OF assms, of 0 n allInstructions "[]"] n0
    by (simp add: m batches_def)
  have "\<lceil>real (length allInstructions) / real_of_int batchSize\<rceil> =
      \<lceil>real_of_int L / real_of_int batchSize\<rceil>" by (simp add: L_def)
  also have "\<dots> = n" by (simp add: ceiling_divide_eq_div n_def)
  finally have 2: "int (length batches) = \<lceil>real (length allInstructions) / real_of_int batchSize\<rceil>"
    using n0 by (simp add: batches_def)
  have "int (length allInstructions) \<le> int (nat n * b)" using up n0 by (simp add: L_def B)
  then have cover: "length allInstructions \<le> nat n * b" by linarith
  have "concat (map instructions batches) =
      concat (map (\<lambda>k. take b (drop (k * b) allInstructions)) [0..<nat n])"
    by (simp add: batches_def instructions_chunk b_def comp_def)
  also have "\<dots> = take (nat n * b) allInstructions" by (rule concat_chunks)
  also have "\<dots> = allInstructions" using cover by simp
  finally have 3: "concat (map instructions batches) = allInstructions" .
  have 4: "\<forall>k. Suc k < length batches \<longrightarrow> length (instructions (batches ! k)) = nat batchSize"
  proof (intro allI impI)
    fix k
    assume k: "Suc k < length batches"
    then have kn: "int k + 1 \<le> n - 1" by (simp add: batches_def)
    then have "(int k + 1) * batchSize \<le> (n - 1) * batchSize"
      using assms by (simp add: mult_right_mono)
    with low have "(int k + 1) * int b < int (length allInstructions)" by (simp add: L_def B)
    then have "int ((k + 1) * b) < int (length allInstructions)" by (simp add: algebra_simps)
    then have "(k + 1) * b < length allInstructions" by linarith
    then have "k * b + b < length allInstructions" by (simp add: algebra_simps)
    then have "length (take b (drop (k * b) allInstructions)) = b" by simp
    moreover have "instructions (batches ! k) = take b (drop (k * b) allInstructions)"
      using k by (simp add: batches_def instructions_chunk b_def)
    ultimately show "length (instructions (batches ! k)) = nat batchSize" by (simp add: b_def)
  qed
  from 1 2 3 4 show ?thesis by blast
qed

theorem partition_batches_witness:
  "(0::int) < 2 \<and>
   batch_loop
     [SystemProgram_transfer ''a'' ''b'' 1, SystemProgram_transfer ''a'' ''b'' 2,
      SystemProgram_transfer ''a'' ''b'' 3, SystemProgram_transfer ''a'' ''b'' 4,
      SystemProgram_transfer ''a'' ''b'' 5] 2 (Math_ceil_div 5 2) 0 []
   = Some
     [\<lparr>instructions = [SystemProgram_transfer ''a'' ''b'' 1, SystemProgram_transfer ''a'' ''b'' 2],
       recentBlockhash = None, signatures = []\<rparr>,
      \<lparr>instructions = [SystemProgram_transfer ''a'' ''b'' 3, SystemProgram_transfer ''a'' ''b'' 4],
       recentBlockhash = None, signatures = []\<rparr>,
      \<lparr>instructions = [SystemProgram_transfer ''a'' ''b'' 5],
       recentBlockhash = None, signatures = []\<rparr>] \<and>
   \<lceil>real 5 / real_of_int 2\<rceil> = 3"
proof -
  let ?all = "[SystemProgram_transfer ''a'' ''b'' 1, SystemProgram_transfer ''a'' ''b'' 2,
      SystemProgram_transfer ''a'' ''b'' 3, SystemProgram_transfer ''a'' ''b'' 4,
      SystemProgram_transfer ''a'' ''b'' 5]"
  have h: "(0::int) < 2" by simp
  have len: "length ?all = 5" by simp
  from partition_batches [OF h, of ?all, unfolded len] obtain batches where
    b: "batch_loop ?all 2 (Math_ceil_div 5 2) 0 [] = Some batches"
    and l: "int (length batches) = \<lceil>real 5 / real_of_int 2\<rceil>"
    by blast
  have e: "batch_loop ?all 2 (Math_ceil_div 5 2) 0 [] = Some
     [\<lparr>instructions = [SystemProgram_transfer ''a'' ''b'' 1, SystemProgram_transfer ''a'' ''b'' 2],
       recentBlockhash = None, signatures = []\<rparr>,
      \<lparr>instructions = [SystemProgram_transfer ''a'' ''b'' 3, SystemProgram_transfer ''a'' ''b'' 4],
       recentBlockhash = None, signatures = []\<rparr>,
      \<lparr>instructions = [SystemProgram_transfer ''a'' ''b'' 5],
       recentBlockhash = None, signatures = []\<rparr>]"
    by (simp add: batch_loop.simps add_instructions.simps Math_ceil_div_def Let_def
        new_Transaction_def tx_add_def)
  from b [symmetric] e have "Some batches = Some
     [\<lparr>instructions = [SystemProgram_transfer ''a'' ''b'' 1, SystemProgram_transfer ''a'' ''b'' 2],
       recentBlockhash = None, signatures = []\<rparr>,
      \<lparr>instructions = [SystemProgram_transfer ''a'' ''b'' 3, SystemProgram_transfer ''a'' ''b'' 4],
       recentBlockhash = None, signatures = []\<rparr>,
      \<lparr>instructions = [SystemProgram_transfer ''a'' ''b'' 5],
       recentBlockhash = None, signatures = []\<rparr>]"
    by (rule trans)
  then have "length batches = 3" by auto
  with l have "\<lceil>real 5 / real_of_int 2\<rceil> = 3" by simp
  with e show ?thesis by simp
qed

lemma push_transfers_replicate:
  "push_transfers i batchSize f t acc =
     acc @ replicate (nat (batchSize - i)) (SystemProgram_transfer f t 10000)"
proof (induction i batchSize f t acc rule: push_transfers.induct)
  case (1 i batchSize f t acc)
  show ?case
  proof (cases "i < batchSize")
    case True
    then have n: "nat (batchSize - i) = Suc (nat (batchSize - (i + 1)))" by simp
    show ?thesis
      using True "1.IH" by (subst push_transfers.simps) (simp add: n replicate_app_Cons_same)
  next
    case False
    then show ?thesis by (subst push_transfers.simps) simp
  qed
qed

text \<open>
  C7, as amended. For every batch size \<open>\<le> 0\<close>, \<open>generateTransactions\<close> returns the empty
  list of batches and raises nothing; \<open>generateRawTransactions\<close> first asks the endpoint
  for the latest blockhash and then returns the empty list too, or the error of that
  request. Neither checks the batch size.
\<close>

theorem nonpositive_batchSize_returns_empty:
  assumes "batchSize \<le> 0"
  shows "generateTransactions batchSize fundingWallet destinationWallet = Some [] \<and>
         generateRawTransactions sign compile batchSize fundingKeypair destinationWallet conn net =
           Some (case answer_blockhash conn of Inl e \<Rightarrow> Inl e | Inr blockhash \<Rightarrow> Inr [],
                 net @ [GetLatestBlockhash])"
proof -
  have p: "\<And>f t. push_transfers 0 batchSize f t [] = []"
    using assms by (simp add: push_transfers_replicate)
  have j: "\<not> js_less 0 (Math_ceil_div 0 batchSize)"
    using assms by (simp add: Math_ceil_div_def)
  have 1: "generateTransactions batchSize fundingWallet destinationWallet = Some []"
    using j by (simp add: generateTransactions_def p Let_def) (subst batch_loop.simps, simp)
  have r: "\<And>blockhash. raw_batch_loop sign compile [] batchSize (Math_ceil_div 0 batchSize)
      fundingKeypair blockhash 0 [] = Some (Inr [])"
    using j by (subst raw_batch_loop.simps) simp
  have 2: "generateRawTransactions sign compile batchSize fundingKeypair destinationWallet conn net =
           Some (case answer_blockhash conn of Inl e \<Rightarrow> Inl e | Inr blockhash \<Rightarrow> Inr [],
                 net @ [GetLatestBlockhash])"
    by (simp add: generateRawTransactions_def p Let_def getLatestBlockhash_def r split: sum.split)
  from 1 2 show ?thesis by simp
qed

theorem nonpositive_batchSize_returns_empty_witness:
  "generateTransactions (- 3) ''funder'' ''dest'' = Some []"
proof -
  have h: "(- 3 :: int) \<le> 0" by simp
  from nonpositive_batchSize_returns_empty [OF h] show ?thesis by simp
qed

text \<open>
  C7 as stated asks for an \<open>InvalidBatchSize\<close> failure. With batch size 0 the bound of the
  loop is \<open>Math.ceil(0 / 0)\<close>, that is \<open>NaN\<close>, the loop is not entered and the empty list
  is returned.
\<close>

theorem nonpositive_batchSize_counterexample:
  "generateTransactions 0 ''funder'' ''dest'' = Some []"
  by (simp add: generateTransactions_def push_transfers.simps Math_ceil_div_def Let_def
      batch_loop.simps)

lemma Math_ceil_div_self: "1 \<le> batchSize \<Longrightarrow> Math_ceil_div (nat batchSize) batchSize = Finite 1"
proof -
  assume a: "1 \<le> batchSize"
  then have "- batchSize div batchSize = - (batchSize div batchSize)"
    by (intro dvd_neg_div) simp
  then show ?thesis using a by (simp add: Math_ceil_div_def)
qed

text \<open>
  C9. For every batch size \<open>\<ge> 1\<close>, \<open>generateRawTransactions\<close> creates exactly \<open>batchSize\<close>
  transfers, each from the funding wallet to the destination over 10,000 lamports; the
  number of transactions is \<open>\<lceil>batchSize / batchSize\<rceil> = 1\<close>; and, the endpoint having
  answered the blockhash request and the library having signed the transaction with present
  64-byte signatures, the result is exactly one raw transaction buffer, the serialization
  of that transaction.
\<close>

theorem generateRawTransactions_single:
  assumes "1 \<le> batchSize"
    and "answer_blockhash conn = Inr blockhash"
    and "sign fundingWallet
           \<lparr>instructions = replicate (nat batchSize)
              (SystemProgram_transfer (kp_publicKey fundingWallet) destinationWallet 10000),
            recentBlockhash = Some blockhash, signatures = []\<rparr> = Inr signedTx"
    and "\<forall>p \<in> set (signatures signedTx). \<exists>s. signature p = Some s \<and> length s = 64"
    and "length (signatures signedTx) < 2097152"
  shows "push_transfers 0 batchSize (kp_publicKey fundingWallet) destinationWallet [] =
           replicate (nat batchSize)
             (SystemProgram_transfer (kp_publicKey fundingWallet) destinationWallet 10000) \<and>
         Math_ceil_div
           (length (push_transfers 0 batchSize (kp_publicKey fundingWallet) destinationWallet []))
           batchSize = Finite 1 \<and>
         (\<exists>rawTxBuffer.
            customSerializeTransaction (compile signedTx) signedTx = Some (Inr rawTxBuffer) \<and>
            generateRawTransactions sign compile batchSize fundingWallet destinationWallet conn net
              = Some (Inr [rawTxBuffer], net @ [GetLatestBlockhash]))"
proof -
  let ?ins = "SystemProgram_transfer (kp_publicKey fundingWallet) destinationWallet 10000"
  let ?all = "replicate (nat batchSize) ?ins"
  have p: "push_transfers 0 batchSize (kp_publicKey fundingWallet) destinationWallet [] = ?all"
    by (simp add: push_transfers_replicate)
  have m: "Math_ceil_div (length ?all) batchSize = Finite 1"
    using assms(1) by (simp add: Math_ceil_div_self)
  from customSerializeTransaction_bytes [OF assms(4) assms(5), of "compile signedTx"]
  obtain rawTxBuffer where
    c: "customSerializeTransaction (compile signedTx) signedTx = Some (Inr rawTxBuffer)"
    by blast
  have a: "add_instructions ?all 0 batchSize new_Transaction =
      \<lparr>instructions = ?all, recentBlockhash = None, signatures = []\<rparr>"
    using assms(1) by (simp add: add_instructions_slice new_Transaction_def)
  have stop: "raw_batch_loop sign compile ?all batchSize (Finite 1) fundingWallet blockhash
      1 [rawTxBuffer] = Some (Inr [rawTxBuffer])"
    by (subst raw_batch_loop.simps) simp
  have "raw_batch_loop sign compile ?all batchSize (Finite 1) fundingWallet blockhash 0 []
      = Some (Inr [rawTxBuffer])"
    by (subst raw_batch_loop.simps) (simp add: Let_def a assms(3) c stop)
  then have g: "generateRawTransactions sign compile batchSize fundingWallet destinationWallet
      conn net = Some (Inr [rawTxBuffer], net @ [GetLatestBlockhash])"
    using assms(1)
    by (simp add: generateRawTransactions_def Let_def p Math_ceil_div_self
        getLatestBlockhash_def assms(2))
  from p m c g show ?thesis by simp
qed

theorem generateRawTransactions_single_witness:
  "generateRawTransactions
     (\<lambda>kp tx. Inr (tx\<lparr>signatures :=
        [\<lparr>signature = Some (replicate 64 7), publicKey = kp_publicKey kp\<rparr>]\<rparr>))
     (\<lambda>tx. [9, 9, 9]) 2 \<lparr>kp_publicKey = ''funder'', kp_secretKey = [1, 2, 3]\<rparr> ''dest''
     \<lparr>answer_blockhash = Inr ''hash'', answer_send = (\<lambda>k raw. Inr ''sig''),
      answer_confirm = (\<lambda>sig. None)\<rparr> []
   = Some (Inr [[1] @ replicate 64 7 @ [9, 9, 9]], [GetLatestBlockhash])"
proof -
  let ?sign = "\<lambda>kp tx. Inr (tx\<lparr>signatures :=
        [\<lparr>signature = Some (replicate 64 (7::byte)), publicKey = kp_publicKey kp\<rparr>]\<rparr>)
        :: error + transaction"
  let ?compile = "\<lambda>tx::transaction. [9, 9, 9::byte]"
  let ?kp = "\<lparr>kp_publicKey = ''funder'', kp_secretKey = [1, 2, 3]\<rparr>"
  let ?conn = "\<lparr>answer_blockhash = Inr ''hash'', answer_send = (\<lambda>k raw. Inr ''sig''),
      answer_confirm = (\<lambda>sig. None)\<rparr>"
  let ?signed = "\<lparr>instructions = replicate (nat 2)
              (SystemProgram_transfer (kp_publicKey ?kp) ''dest'' 10000),
            recentBlockhash = Some ''hash'',
            signatures = [\<lparr>signature = Some (replicate 64 (7::byte)), publicKey = ''funder''\<rparr>]\<rparr>"
  have h1: "(1::int) \<le> 2" by simp
  have h2: "answer_blockhash ?conn = Inr ''hash''" by simp
  have h3: "?sign ?kp \<lparr>instructions = replicate (nat 2)
              (SystemProgram_transfer (kp_publicKey ?kp) ''dest'' 10000),
            recentBlockhash = Some ''hash'', signatures = []\<rparr> = Inr ?signed" by simp
  have h4: "\<forall>p \<in> set (signatures ?signed). \<exists>s. signature p = Some s \<and> length s = 64" by simp
  have h5: "length (signatures ?signed) < 2097152" by simp
  have c: "customSerializeTransaction (?compile ?signed) ?signed =
      Some (Inr ([1] @ replicate 64 7 @ [9, 9, 9]))"
    by (simp add: customSerializeTransaction_bytes length_compact_bytes_1)
  from generateRawTransactions_single [of 2 ?conn "''hash''" ?sign ?kp "''dest''" ?signed ?compile "[]",
      OF h1 h2 h3 h4 h5] c
  show ?thesis by auto
qed

section \<open>Sending and dispatch\<close>

lemma catch_send_throws: "catch_send err i = Inl err"
  by (simp add: catch_send_def)

lemma retry_loop_single:
  "i < retries \<Longrightarrow> retry_loop conn rawTransaction retries i net = try_send conn rawTransaction net"
  by (subst retry_loop.simps) (simp add: catch_send_throws split: prod.split sum.split)

lemma retry_loop_exhausted:
  "\<not> i < retries \<Longrightarrow> retry_loop conn rawTransaction retries i net =
     (Inl (Error (''Failed to send transaction after '' @ string_of_nat retries @ '' attempts'')), net)"
  by (subst retry_loop.simps) simp

lemma submissions_append: "submissions (xs @ ys) = submissions xs + submissions ys"
  by (simp add: submissions_def)

lemma submissions_try_send:
  "submissions (snd (try_send conn rawTransaction net)) = submissions net + 1"
  by (simp add: try_send_def sendRawTransaction_def confirmTransaction_def submissions_append
      submissions_def split: sum.split option.split)

lemma sendRawTransactionWithRetry_one_submission:
  "0 < retries \<Longrightarrow>
   submissions (snd (sendRawTransactionWithRetry conn rawTransaction retries net)) =
     submissions net + 1"
  by (simp add: sendRawTransactionWithRetry_def retry_loop_single submissions_try_send)

lemma string_of_nat_digit: "n < 10 \<Longrightarrow> string_of_nat n = [''0123456789'' ! n]"
  by (subst string_of_nat.simps) simp

text \<open>
  C1. The claim is that with five attempts allowed, five rejected submissions make exactly
  five attempts, and a third submission that succeeds makes exactly three and returns its
  signature. The code does otherwise: the \<open>catch\<close> block throws the caught error again
  before \<open>i++\<close>, so the loop ends with the first attempt. Against the endpoint that
  rejects everything, and against the one that would accept the third submission, the call
  makes one submission and throws the error of that first one.
\<close>

theorem sendRawTransactionWithRetry_stops_at_first_error:
  "sendRawTransactionWithRetry rejecting [1, 2, 3] 5 [] =
     (Inl (SendTransactionError ''rejected 0''), [SendRawTransaction [1, 2, 3]]) \<and>
   sendRawTransactionWithRetry third_time [1, 2, 3] 5 [] =
     (Inl (SendTransactionError ''rejected 0''), [SendRawTransaction [1, 2, 3]])"
  by (simp add: sendRawTransactionWithRetry_def retry_loop.simps try_send_def catch_send_def
      sendRawTransaction_def confirmTransaction_def submissions_def rejecting_def third_time_def
      string_of_nat_digit)

lemma then_resolve_not_Rejected: "then_resolve sent \<noteq> Rejected e"
  by (simp add: then_resolve_def split: sum.split)

lemma length_staggeredTransactions:
  "length (fst (staggeredTransactions conn rawTransactionList net)) = length rawTransactionList"
proof (induction rawTransactionList arbitrary: net)
  case Nil
  then show ?case by simp
next
  case (Cons raw rest)
  obtain sent net' where s: "sendRawTransactionWithRetry conn raw 5 net = (sent, net')"
    by (cases "sendRawTransactionWithRetry conn raw 5 net")
  obtain ps net'' where t: "staggeredTransactions conn rest net' = (ps, net'')"
    by (cases "staggeredTransactions conn rest net'")
  from Cons.IH [of net'] t have "length ps = length rest" by simp
  then show ?case by (simp add: s t)
qed

lemma Promise_allSettled_Some:
  "Promise_allSettled ps = Some rs \<Longrightarrow> Pending \<notin> set ps \<and> length rs = length ps"
  by (induction ps arbitrary: rs) (auto split: option.splits)

lemma Promise_allSettled_Pending: "Pending \<in> set ps \<Longrightarrow> Promise_allSettled ps = None"
  by (induction ps) (auto split: option.splits)

lemma staggered_Pending:
  "\<exists>i < length rawTransactionList.
     \<exists>err. fst (sendRawTransactionWithRetry conn (rawTransactionList ! i) 5
       (snd (staggeredTransactions conn (take i rawTransactionList) net))) = Inl err \<Longrightarrow>
   Pending \<in> set (fst (staggeredTransactions conn rawTransactionList net))"
proof (induction rawTransactionList arbitrary: net)
  case Nil
  then show ?case by simp
next
  case (Cons raw rest)
  then obtain i err where i: "i < length (raw # rest)"
    and e: "fst (sendRawTransactionWithRetry conn ((raw # rest) ! i) 5
       (snd (staggeredTransactions conn (take i (raw # rest)) net))) = Inl err" by blast
  show ?case
  proof (cases i)
    case 0
    with e have "fst (sendRawTransactionWithRetry conn raw 5 net) = Inl err" by simp
    then show ?thesis
      by (cases "sendRawTransactionWithRetry conn raw 5 net";
          cases "staggeredTransactions conn rest (snd (sendRawTransactionWithRetry conn raw 5 net))")
        (simp add: then_resolve_def)
  next
    case (Suc j)
    obtain sent net' where s: "sendRawTransactionWithRetry conn raw 5 net = (sent, net')"
      by (cases "sendRawTransactionWithRetry conn raw 5 net")
    have "snd (staggeredTransactions conn (take i (raw # rest)) net) =
        snd (staggeredTransactions conn (take j rest) net')"
      using Suc s by (simp split: prod.split)
    with e Suc i have "\<exists>i < length rest. \<exists>err.
        fst (sendRawTransactionWithRetry conn (rest ! i) 5
          (snd (staggeredTransactions conn (take i rest) net'))) = Inl err" by auto
    then have "Pending \<in> set (fst (staggeredTransactions conn rest net'))" by (rule Cons.IH)
    then show ?thesis
      using s by (cases "staggeredTransactions conn rest net'") simp
  qed
qed

lemma executeRawTransactions_never_resolves:
  "\<exists>i < length rawTransactionList.
     \<exists>err. fst (sendRawTransactionWithRetry conn (rawTransactionList ! i) 5
       (snd (staggeredTransactions conn (take i rawTransactionList) net))) = Inl err \<Longrightarrow>
   fst (executeRawTransactions conn rawTransactionList net) = None"
  using staggered_Pending [of rawTransactionList conn net]
  by (cases "staggeredTransactions conn rawTransactionList net")
    (simp add: executeRawTransactions_def Promise_allSettled_Pending)

lemma staggered_not_Rejected:
  "Rejected e \<notin> set (fst (staggeredTransactions conn rawTransactionList net))"
proof (induction rawTransactionList arbitrary: net)
  case Nil
  then show ?case by simp
next
  case (Cons raw rest)
  obtain sent net' where s: "sendRawTransactionWithRetry conn raw 5 net = (sent, net')"
    by (cases "sendRawTransactionWithRetry conn raw 5 net")
  obtain ps net'' where t: "staggeredTransactions conn rest net' = (ps, net'')"
    by (cases "staggeredTransactions conn rest net'")
  from Cons.IH [of net'] t have "Rejected e \<notin> set ps" by simp
  then show ?case using then_resolve_not_Rejected [of sent e] by (simp add: s t)
qed

lemma Promise_allSettled_rejected:
  "Promise_allSettled ps = Some rs \<Longrightarrow> PromiseRejectedResult e \<in> set rs \<Longrightarrow> Rejected e \<in> set ps"
proof (induction ps arbitrary: rs)
  case Nil
  then show ?case by simp
next
  case (Cons p ps)
  then show ?case by (cases p) (auto split: option.splits)
qed

lemma executeRawTransactions_resolved:
  assumes "fst (executeRawTransactions conn rawTransactionList net) = Some results"
  shows "length results = length rawTransactionList"
    and "PromiseRejectedResult e \<notin> set results"
proof -
  obtain ps net' where t: "staggeredTransactions conn rawTransactionList net = (ps, net')"
    by (cases "staggeredTransactions conn rawTransactionList net")
  with assms have a: "Promise_allSettled ps = Some results"
    by (simp add: executeRawTransactions_def)
  have l: "length ps = length rawTransactionList"
    using length_staggeredTransactions [of conn rawTransactionList net] t by simp
  from a l show "length results = length rawTransactionList"
    by (simp add: Promise_allSettled_Some)
  have "Rejected e \<notin> set ps"
    using staggered_not_Rejected [of e conn rawTransactionList net] t by simp
  with a show "PromiseRejectedResult e \<notin> set results"
    using Promise_allSettled_rejected by blast
qed

text \<open>
  C2. The claim is that a dispatch of \<open>N\<close> messages resolves with \<open>N\<close> outcomes in the
  order of the messages, fulfilled or rejected. The code does otherwise when a send fails:
  the promise of that message stays pending, so \<open>Promise.allSettled\<close> never resolves. With
  three of ten submissions rejected, seven promises are fulfilled, three stay pending and
  the call does not resolve; with a single rejected message likewise. (When the call does
  resolve, it has one outcome for each message and none is a rejection:
  \<open>executeRawTransactions_resolved\<close>.)
\<close>

theorem executeRawTransactions_pending_on_failure:
  "fst (staggeredTransactions three_rejected ten_messages []) =
     [Fulfilled ''signature 0'', Pending, Fulfilled ''signature 2'', Fulfilled ''signature 3'',
      Pending, Fulfilled ''signature 5'', Fulfilled ''signature 6'', Pending,
      Fulfilled ''signature 8'', Fulfilled ''signature 9''] \<and>
   fst (executeRawTransactions three_rejected ten_messages []) = None \<and>
   fst (executeRawTransactions rejecting [[1, 2, 3]] []) = None"
  by (simp add: executeRawTransactions_def sendRawTransactionWithRetry_def retry_loop.simps
      try_send_def catch_send_def sendRawTransaction_def confirmTransaction_def submissions_def
      rejecting_def three_rejected_def ten_messages_def then_resolve_def string_of_nat_digit)

end
